theory Spec2Isabelle
  imports Main
begin

section \<open>JSON state of the AXIS rules engine\<close>

text \<open>
  The engine (\<^verbatim>\<open>AxisRulesEngine\<close>, v1.0.0) works on a JSON state: an object whose
  properties hold primitives or nested objects. An object is the list of its own
  properties in enumeration order (the order \<^verbatim>\<open>for..in\<close>, \<^verbatim>\<open>Object.keys\<close> and
  \<^verbatim>\<open>JSON.stringify\<close> visit them), under any name, \<^verbatim>\<open>__proto__\<close> and \<^verbatim>\<open>hasOwnProperty\<close>
  included, as \<^verbatim>\<open>JSON.parse\<close> creates them. A character is a code unit below 256.
  Numbers are the integers, on which the host's double arithmetic is exact below
  \<open>2^53\<close>. Arrays and \<^verbatim>\<open>undefined\<close> are outside the embedding. Two things a write
  can do are not represented either, and the results about writes assume paths
  that do neither (\<open>plain_path\<close> below): a path through \<^verbatim>\<open>__proto__\<close> reaches the
  prototype instead of the state, and a new property named by digits is
  enumerated before the others.
\<close>

datatype prim = JNull | JBool bool | JNum int | JStr string

datatype jsval = Prim prim | JObj "(string \<times> jsval) list"

type_synonym jsobject = "(string \<times> jsval) list"

text \<open>\<^verbatim>\<open>obj[k] = v\<close>: an existing property keeps its place, a new one is added last.\<close>

fun obj_set :: "string \<Rightarrow> 'v \<Rightarrow> (string \<times> 'v) list \<Rightarrow> (string \<times> 'v) list" where
  "obj_set k v [] = [(k, v)]"
| "obj_set k v ((k', v') # rest) =
     (if k' = k then (k, v) # rest else (k', v') # obj_set k v rest)"

text \<open>\<^verbatim>\<open>obj[k]\<close> on own properties.\<close>

definition obj_get :: "(string \<times> 'v) list \<Rightarrow> string \<Rightarrow> 'v option" where
  "obj_get obj k = map_of obj k"

text \<open>\<^verbatim>\<open>Object.assign(target, source)\<close>, also one \<^verbatim>\<open>...source\<close> of an object literal.\<close>

definition assign :: "(string \<times> 'v) list \<Rightarrow> (string \<times> 'v) list \<Rightarrow> (string \<times> 'v) list" where
  "assign target source = fold (\<lambda>(k, v) acc. obj_set k v acc) source target"

section \<open>The evaluation context\<close>

text \<open>
  A context value is a value of the state or one of the host utilities that
  \<^verbatim>\<open>createSafeContext\<close> adds (\<^verbatim>\<open>Math: Math\<close>, \<^verbatim>\<open>Date: Date\<close>, ...), named by its global.
\<close>

datatype ctxval = StateVal jsval | Utility string

type_synonym evalctx = "(string \<times> ctxval) list"

definition utility_names :: "string list" where
  "utility_names = [''Math'', ''Date'', ''parseInt'', ''parseFloat'', ''String'',
     ''Number'', ''Boolean'', ''Array'', ''JSON'']"

definition dots_to_underscores :: "string \<Rightarrow> string" where
  "dots_to_underscores s = map (\<lambda>c. if c = CHR ''.'' then CHR ''_'' else c) s"

text \<open>
  The local object \<^verbatim>\<open>flattened\<close> of \<^verbatim>\<open>flattenObject\<close>: its own properties, and whether
  it still has its prototype. \<^verbatim>\<open>flattened[k] = v\<close> with a leaf \<open>v\<close> is an ordinary write,
  except under the name \<^verbatim>\<open>__proto__\<close> while the prototype is there and no own property
  has that name: the inherited setter then takes the value, which removes the
  prototype when the value is \<^verbatim>\<open>null\<close> and does nothing otherwise.
\<close>

type_synonym flat = "(string \<times> prim) list \<times> bool"

definition flat_set :: "string \<Rightarrow> prim \<Rightarrow> flat \<Rightarrow> flat" where
  "flat_set k v fl =
     (case fl of (props, proto) \<Rightarrow>
        if k = ''__proto__'' \<and> proto \<and> map_of props k = None
        then (if v = JNull then (props, False) else (props, proto))
        else (obj_set k v props, proto))"

text \<open>\<^verbatim>\<open>Object.assign(flattened, sub)\<close>: one write per own property of \<open>sub\<close>.\<close>

definition flat_assign :: "flat \<Rightarrow> (string \<times> prim) list \<Rightarrow> flat" where
  "flat_assign fl sub = fold (\<lambda>(k, p) acc. flat_set k p acc) sub fl"

text \<open>
  The loop of \<^verbatim>\<open>flattenObject(obj, prefix)\<close> over the properties of \<open>obj\<close>. Every turn
  calls \<^verbatim>\<open>obj.hasOwnProperty(key)\<close>: when \<open>obj\<close> has an own property of that name
  (\<open>shadowed\<close>), its value is a JSON value, not a function, and the call throws a
  TypeError; otherwise the inherited method answers true.
\<close>

fun flatten_loop :: "bool \<Rightarrow> jsobject \<Rightarrow> string \<Rightarrow> flat \<Rightarrow> string + flat" where
  "flatten_loop shadowed [] prefix flattened = Inr flattened"
| "flatten_loop shadowed ((key, v) # rest) prefix flattened =
     (if shadowed then Inl ''obj.hasOwnProperty is not a function''
      else
        (let newKey = (if prefix \<noteq> [] then prefix @ ''.'' @ key else key) in
         case v of
           JObj kids \<Rightarrow>
             (case flatten_loop (map_of kids ''hasOwnProperty'' \<noteq> None) kids newKey ([], True) of
                Inl err \<Rightarrow> Inl err
              | Inr sub \<Rightarrow> flatten_loop shadowed rest prefix (flat_assign flattened (fst sub)))
         | Prim p \<Rightarrow> flatten_loop shadowed rest prefix (flat_set (dots_to_underscores newKey) p flattened)))"

definition flattenObject :: "jsobject \<Rightarrow> string \<Rightarrow> string + flat" where
  "flattenObject obj prefix = flatten_loop (map_of obj ''hasOwnProperty'' \<noteq> None) obj prefix ([], True)"

text \<open>
  \<^verbatim>\<open>createSafeContext\<close>: the object literal takes the flattened properties, then the
  properties of the state, then the utilities, each as an own property; it throws
  when \<^verbatim>\<open>flattenObject\<close> does.
\<close>

definition createSafeContext :: "jsobject \<Rightarrow> string + evalctx" where
  "createSafeContext ctx =
     (case flattenObject ctx [] of
        Inl err \<Rightarrow> Inl err
      | Inr flattened \<Rightarrow>
          Inr (assign
                 (assign
                    (assign [] (map (\<lambda>(k, p). (k, StateVal (Prim p))) (fst flattened)))
                    (map (\<lambda>(k, v). (k, StateVal v)) ctx))
                 (map (\<lambda>u. (u, Utility u)) utility_names)))"

section \<open>Strings\<close>

text \<open>Strings are lists of 8-bit characters. The helpers are the String methods the engine calls.\<close>

definition starts_with :: "string \<Rightarrow> string \<Rightarrow> bool" where
  "starts_with s p = (take (length p) s = p)"

fun str_includes :: "string \<Rightarrow> string \<Rightarrow> bool" where
  "str_includes [] p = (p = [])"
| "str_includes (c # cs) p = (starts_with (c # cs) p \<or> str_includes cs p)"

definition is_line_terminator :: "char \<Rightarrow> bool" where
  "is_line_terminator c = (c = CHR 0x0A \<or> c = CHR 0x0D)"

definition is_space :: "char \<Rightarrow> bool" where
  "is_space c = (c = CHR '' '' \<or> c = CHR 0x09 \<or> c = CHR 0x0A \<or> c = CHR 0x0B
     \<or> c = CHR 0x0C \<or> c = CHR 0x0D \<or> c = CHR 0xA0)"

definition trim :: "string \<Rightarrow> string" where
  "trim s = rev (dropWhile is_space (rev (dropWhile is_space s)))"

text \<open>
  The lazy group of \<^verbatim>\<open>/\{\{(.*?)\}\}/\<close>, read after an opening \<^verbatim>\<open>{{\<close>: the text up to
  the nearest \<^verbatim>\<open>}}\<close> and what follows it; no match when a line terminator or the
  end of the string comes first (\<^verbatim>\<open>.\<close> matches no line terminator).
\<close>

fun find_close :: "string \<Rightarrow> (string \<times> string) option" where
  "find_close [] = None"
| "find_close (c # cs) =
     (if starts_with (c # cs) ''}}'' then Some ([], drop 2 (c # cs))
      else if is_line_terminator c then None
      else (case find_close cs of
              None \<Rightarrow> None
            | Some (inner, rest) \<Rightarrow> Some (c # inner, rest)))"

lemma find_close_shorter: "find_close s = Some (inner, rest) \<Longrightarrow> length rest < length s"
  by (induction s arbitrary: inner rest) (auto split: if_splits option.splits)

text \<open>\<^verbatim>\<open>template.replace(/\{\{(.*?)\}\}/g, '$1')\<close>: every wrapper, left to right, gives way to its inner text.\<close>

function strip_wrappers :: "string \<Rightarrow> string" where
  "strip_wrappers [] = []"
| "strip_wrappers (c # cs) =
     (if starts_with (c # cs) ''{{'' then
        (case find_close (drop 2 (c # cs)) of
           Some (inner, rest) \<Rightarrow> inner @ strip_wrappers rest
         | None \<Rightarrow> c # strip_wrappers cs)
      else c # strip_wrappers cs)"
  by pat_completeness auto
termination
proof (relation "measure length")
  show "wf (measure length)" by simp
next
  fix c :: char and cs x2 x y
  assume "find_close (drop 2 (c # cs)) = Some x2" and xy: "(x, y) = x2"
  then have "length y < length (drop 2 (c # cs))"
    using find_close_shorter [of "drop 2 (c # cs)" x y] by simp
  then show "(y, c # cs) \<in> measure length" by simp
qed simp_all

text \<open>\<^verbatim>\<open>path.split('.')\<close>: never empty; the empty path gives one empty key.\<close>

fun split_dots :: "string \<Rightarrow> string list" where
  "split_dots [] = [[]]"
| "split_dots (c # cs) =
     (if c = CHR ''.'' then [] # split_dots cs
      else (case split_dots cs of
              [] \<Rightarrow> [[c]]
            | w # ws \<Rightarrow> (c # w) # ws))"

text \<open>\<^verbatim>\<open>s.replace(pat, rep)\<close> with a string pattern: the first occurrence only.\<close>

fun replace_first :: "string \<Rightarrow> string \<Rightarrow> string \<Rightarrow> string" where
  "replace_first pat rep [] = (if pat = [] then rep else [])"
| "replace_first pat rep (c # cs) =
     (if starts_with (c # cs) pat then rep @ drop (length pat) (c # cs)
      else c # replace_first pat rep cs)"

text \<open>Numbers in template literals: decimal digits, a minus sign below zero.\<close>

definition digit_char :: "nat \<Rightarrow> char" where
  "digit_char d = char_of (of_char (CHR ''0'') + d)"

fun show_nat :: "nat \<Rightarrow> string" where
  "show_nat n = (if n < 10 then [digit_char n] else show_nat (n div 10) @ [digit_char (n mod 10)])"

declare show_nat.simps [simp del]

definition show_int :: "int \<Rightarrow> string" where
  "show_int i = (if i < 0 then CHR ''-'' # show_nat (nat (- i)) else show_nat (nat i))"

fun join :: "string \<Rightarrow> string list \<Rightarrow> string" where
  "join sep [] = []"
| "join sep [x] = x"
| "join sep (x # y # ys) = x @ sep @ join sep (y # ys)"

section \<open>Rules, the host and the engine's fields\<close>

text \<open>
  A rule's \<^verbatim>\<open>if\<close> is absent, a boolean literal or an expression string; its \<^verbatim>\<open>then\<close>,
  when present, lists its entries in \<^verbatim>\<open>Object.entries\<close> order, each a path and a
  primitive (a string may be a template).
\<close>

datatype condition = CAbsent | CBool bool | CStr string

record rule =
  name :: string
  priority :: "int option"
  rule_if :: condition
  rule_then :: "(string \<times> prim) list option"

record rules_config =
  max_iterations :: "int option"
  rules :: "rule list"

text \<open>
  What the host answers when it is asked: \<^verbatim>\<open>new Date().toISOString()\<close>, \<^verbatim>\<open>Date.now()\<close>
  and the draws \<^verbatim>\<open>Math.random() * 16 | 0\<close>. A host is the sequence of readings one
  call of \<^verbatim>\<open>apply\<close> observes, in order.
\<close>

record reading =
  isoString :: string
  millis :: int
  random16 :: "nat \<Rightarrow> nat"

type_synonym host = "nat \<Rightarrow> reading"

text \<open>A host whose clock stands still at one instant and whose draws are all 0.\<close>

definition still_host :: "string \<Rightarrow> int \<Rightarrow> host" where
  "still_host t ms = (\<lambda>n. \<lparr>isoString = t, millis = ms, random16 = (\<lambda>i. 0)\<rparr>)"

text \<open>
  The host's \<^verbatim>\<open>new Function(...Object.keys(ctx), `return ${expr}`)(...Object.values(ctx))\<close>:
  it throws (\<open>Inl\<close>, with the error's message) or returns a value (\<open>Inr\<close>). It may
  consult the clock and the random source through \<^verbatim>\<open>Date\<close> and \<^verbatim>\<open>Math\<close>.
\<close>

type_synonym evaluator = "reading \<Rightarrow> evalctx \<Rightarrow> string \<Rightarrow> string + prim"

record audit_entry =
  timestamp :: string
  level :: string
  message :: string

record conflict =
  field :: string
  previousRule :: string
  currentRule :: string
  resolution :: string
  iteration :: int

text \<open>The instance fields; \<open>clock\<close> counts the readings taken from the host so far.\<close>

record engine =
  auditTrail :: "audit_entry list"
  conflictLog :: "conflict list"
  currentIteration :: int
  clock :: nat

text \<open>The object \<^verbatim>\<open>apply\<close> returns; \<open>res_input\<close> and \<open>res_output\<close> are its \<^verbatim>\<open>input\<close> and \<^verbatim>\<open>output\<close>.\<close>

record result =
  res_input :: jsobject
  res_output :: jsobject
  iterations :: int
  audit :: "audit_entry list"
  conflicts :: "conflict list"
  rulesApplied :: "string list"
  engine_version :: string

definition log :: "host \<Rightarrow> engine \<Rightarrow> string \<Rightarrow> string \<Rightarrow> engine" where
  "log h eng msg lvl =
     eng\<lparr>auditTrail := auditTrail eng @ [\<lparr>timestamp = isoString (h (clock eng)), level = lvl, message = msg\<rparr>],
         clock := Suc (clock eng)\<rparr>"

definition getRulesApplied :: "engine \<Rightarrow> string list" where
  "getRulesApplied eng =
     map (\<lambda>e. replace_first ''Applied: '' [] (message e))
       (filter (\<lambda>e. starts_with (message e) ''Applied:'') (auditTrail eng))"

section \<open>Conditions and templates\<close>

text \<open>\<^verbatim>\<open>Boolean(v)\<close> and \<^verbatim>\<open>!v\<close> on primitives.\<close>

fun truthy :: "prim \<Rightarrow> bool" where
  "truthy JNull = False"
| "truthy (JBool b) = b"
| "truthy (JNum n) = (n \<noteq> 0)"
| "truthy (JStr s) = (s \<noteq> [])"

text \<open>\<^verbatim>\<open>!condition\<close>, and the text of \<^verbatim>\<open>`${condition}`\<close>.\<close>

fun falsy_condition :: "condition \<Rightarrow> bool" where
  "falsy_condition CAbsent = True"
| "falsy_condition (CBool b) = (\<not> b)"
| "falsy_condition (CStr s) = (s = [])"

fun condition_text :: "condition \<Rightarrow> string" where
  "condition_text CAbsent = ''undefined''"
| "condition_text (CBool b) = (if b then ''true'' else ''false'')"
| "condition_text (CStr s) = s"

text \<open>
  The statements both \<^verbatim>\<open>try\<close> blocks share: build the context, construct the
  function, call it. Whatever is thrown reaches the \<^verbatim>\<open>catch\<close> as \<open>Inl\<close>.
\<close>

definition try_evaluate :: "evaluator \<Rightarrow> reading \<Rightarrow> jsobject \<Rightarrow> string \<Rightarrow> string + prim" where
  "try_evaluate ev rd ctx expr =
     (case createSafeContext ctx of
        Inl err \<Rightarrow> Inl err
      | Inr safeContext \<Rightarrow> ev rd safeContext expr)"

definition evaluateCondition :: "evaluator \<Rightarrow> host \<Rightarrow> condition \<Rightarrow> jsobject \<Rightarrow> engine \<Rightarrow> bool \<times> engine" where
  "evaluateCondition ev h cond ctx eng =
     (if falsy_condition cond then (True, eng)
      else
        (let eng1 = eng\<lparr>clock := Suc (clock eng)\<rparr> in
         case try_evaluate ev (h (clock eng)) ctx (condition_text cond) of
           Inr v \<Rightarrow> (truthy v, eng1)
         | Inl msg \<Rightarrow>
             (False, log h eng1 (''Condition evaluation failed: '' @ condition_text cond @ '' - '' @ msg) ''error'')))"

definition hex_char :: "nat \<Rightarrow> char" where
  "hex_char d = (if d < 10 then digit_char d else char_of (of_char (CHR ''a'') + (d - 10)))"

text \<open>The \<^verbatim>\<open>uuid()\<close> builtin: one draw for every \<^verbatim>\<open>x\<close> and \<^verbatim>\<open>y\<close> of the pattern.\<close>

fun uuid_fill :: "string \<Rightarrow> (nat \<Rightarrow> nat) \<Rightarrow> nat \<Rightarrow> string" where
  "uuid_fill [] rnd i = []"
| "uuid_fill (c # cs) rnd i =
     (if c = CHR ''x'' then hex_char (rnd i mod 16) # uuid_fill cs rnd (Suc i)
      else if c = CHR ''y'' then hex_char (rnd i mod 16 mod 4 + 8) # uuid_fill cs rnd (Suc i)
      else c # uuid_fill cs rnd i)"

definition uuid :: "reading \<Rightarrow> string" where
  "uuid r = uuid_fill ''xxxxxxxx-xxxx-4xxx-yxxx-xxxxxxxxxxxx'' (random16 r) 0"

definition resolveValue :: "evaluator \<Rightarrow> host \<Rightarrow> prim \<Rightarrow> jsobject \<Rightarrow> engine \<Rightarrow> prim \<times> engine" where
  "resolveValue ev h template ctx eng =
     (case template of
        JStr t \<Rightarrow>
          (if str_includes t ''{{'' \<and> str_includes t ''}}'' then
             (let expression = trim (strip_wrappers t);
                  r = h (clock eng);
                  eng1 = eng\<lparr>clock := Suc (clock eng)\<rparr>
              in if expression = ''now()'' then (JStr (isoString r), eng1)
                 else if expression = ''timestamp()'' then (JNum (millis r), eng1)
                 else if expression = ''uuid()'' then (JStr (uuid r), eng1)
                 else (case try_evaluate ev r ctx expression of
                         Inr v \<Rightarrow> (v, eng1)
                       | Inl msg \<Rightarrow>
                           (JStr t, log h eng1 (''Template resolution failed: '' @ t @ '' - '' @ msg) ''error'')))
           else (JStr t, eng))
      | _ \<Rightarrow> (template, eng))"

section \<open>Writing a path\<close>

text \<open>
  \<^verbatim>\<open>setNestedPath\<close>, on the keys of the split path: a missing, falsy or primitive
  intermediate value gives way to a fresh object; the last key takes the value.
\<close>

fun set_keys :: "jsobject \<Rightarrow> string list \<Rightarrow> jsval \<Rightarrow> jsobject" where
  "set_keys obj [] v = obj"
| "set_keys obj [k] v = obj_set k v obj"
| "set_keys obj (k # k' # ks) v =
     obj_set k
       (JObj (set_keys (case obj_get obj k of Some (JObj kids) \<Rightarrow> kids | _ \<Rightarrow> []) (k' # ks) v))
       obj"

definition setNestedPath :: "jsobject \<Rightarrow> string \<Rightarrow> jsval \<Rightarrow> jsobject" where
  "setNestedPath obj path v = set_keys obj (split_dots path) v"

section \<open>Applying a rule, sweeping, iterating\<close>

text \<open>
  \<^verbatim>\<open>JSON.stringify(state)\<close> is used only to compare two states, and
  \<^verbatim>\<open>JSON.parse(JSON.stringify(state))\<close> only to copy one. On the trees of this
  embedding the copy is the tree itself and two serializations are equal exactly
  when the trees are, so a serialization is represented by the tree it prints.
\<close>

definition JSON_stringify :: "jsobject \<Rightarrow> jsobject" where
  "JSON_stringify st = st"

definition deep_copy :: "jsobject \<Rightarrow> jsobject" where
  "deep_copy st = st"

text \<open>
  The body of the loop of \<^verbatim>\<open>applyTransformationsWithTracking\<close> over the entries of
  \<^verbatim>\<open>then\<close>; \<open>changes\<close> is the Map \<^verbatim>\<open>iterationChanges\<close>. (\<^verbatim>\<open>fieldsChanged\<close>, which no
  caller reads, is left out.)
\<close>

fun transform_entries ::
  "evaluator \<Rightarrow> host \<Rightarrow> string \<Rightarrow> (string \<times> prim) list \<Rightarrow>
   jsobject \<times> (string \<rightharpoonup> string) \<times> engine \<Rightarrow> jsobject \<times> (string \<rightharpoonup> string) \<times> engine" where
  "transform_entries ev h ruleName [] (newState, changes, eng) = (newState, changes, eng)"
| "transform_entries ev h ruleName ((path, v) # rest) (newState, changes, eng) =
     (let (resolvedValue, eng1) = resolveValue ev h v newState eng;
          eng2 = (case changes path of
                    Some prev \<Rightarrow>
                      log h
                        (eng1\<lparr>conflictLog := conflictLog eng1 @
                           [\<lparr>field = path, previousRule = prev, currentRule = ruleName,
                             resolution = ''priority_override'', iteration = currentIteration eng1\<rparr>]\<rparr>)
                        (''Conflict: '' @ prev @ '' vs '' @ ruleName @ '' on '' @ path @
                           [CHR '' '', CHR 0xE2, CHR 0x86, CHR 0x92, CHR '' ''] @ ruleName @ '' wins'')
                        ''warning''
                  | None \<Rightarrow> eng1)
      in transform_entries ev h ruleName rest
           (setNestedPath newState path (Prim resolvedValue), changes(path \<mapsto> ruleName), eng2))"

definition applyTransformationsWithTracking ::
  "evaluator \<Rightarrow> host \<Rightarrow> jsobject \<Rightarrow> (string \<times> prim) list \<Rightarrow> string \<Rightarrow> (string \<rightharpoonup> string) \<Rightarrow> engine \<Rightarrow>
   jsobject \<times> (string \<rightharpoonup> string) \<times> engine" where
  "applyTransformationsWithTracking ev h state transformations ruleName changes eng =
     transform_entries ev h ruleName transformations (deep_copy state, changes, eng)"

text \<open>One turn of \<^verbatim>\<open>for (let rule of sortedRules)\<close>.\<close>

definition rule_step ::
  "evaluator \<Rightarrow> host \<Rightarrow> rule \<Rightarrow> jsobject \<times> bool \<times> (string \<rightharpoonup> string) \<times> engine \<Rightarrow>
   jsobject \<times> bool \<times> (string \<rightharpoonup> string) \<times> engine" where
  "rule_step ev h r s =
     (case s of (currentState, changed, changes, eng) \<Rightarrow>
        (let previousState = JSON_stringify currentState in
         case evaluateCondition ev h (rule_if r) currentState eng of
           (True, eng1) \<Rightarrow>
             (let eng2 = log h eng1 (''Applied: '' @ name r) ''info'' in
              case rule_then r of
                None \<Rightarrow> (currentState, changed, changes, eng2)
              | Some ts \<Rightarrow>
                  (case applyTransformationsWithTracking ev h currentState ts (name r) changes eng2 of
                     (newState, changes', eng3) \<Rightarrow>
                       (newState, changed \<or> previousState \<noteq> JSON_stringify newState, changes', eng3)))
         | (False, eng1) \<Rightarrow>
             (currentState, changed, changes,
              log h eng1 (''Skipped: '' @ name r @ '' (condition not met)'') ''info'')))"

definition sweep ::
  "evaluator \<Rightarrow> host \<Rightarrow> rule list \<Rightarrow> jsobject \<times> bool \<times> (string \<rightharpoonup> string) \<times> engine \<Rightarrow>
   jsobject \<times> bool \<times> (string \<rightharpoonup> string) \<times> engine" where
  "sweep ev h sortedRules s = fold (rule_step ev h) sortedRules s"

text \<open>The body of the \<^verbatim>\<open>while\<close> loop: one full sweep, numbered \<open>iteration + 1\<close>.\<close>

definition iteration_body ::
  "evaluator \<Rightarrow> host \<Rightarrow> rule list \<Rightarrow> jsobject \<times> int \<times> bool \<times> engine \<Rightarrow> jsobject \<times> int \<times> bool \<times> engine" where
  "iteration_body ev h sortedRules s =
     (case s of (currentState, iter, changed, eng) \<Rightarrow>
        (let eng1 = log h (eng\<lparr>currentIteration := iter + 1\<rparr>)
                      (''--- Iteration '' @ show_int (iter + 1) @ '' ---'') ''info''
         in case sweep ev h sortedRules (currentState, False, Map.empty, eng1) of
              (newState, changed', changes, eng2) \<Rightarrow>
                (newState, iter + 1, changed',
                 if length (conflictLog eng2) > 0
                 then log h eng2 (''Conflicts resolved: '' @ show_nat (length (conflictLog eng2))) ''warning''
                 else eng2)))"

lemma iteration_body_counts: "fst (snd (iteration_body ev h rs (st, it, ch, eng))) = it + 1"
  by (simp add: iteration_body_def split: prod.splits)

function fixpoint_loop ::
  "evaluator \<Rightarrow> host \<Rightarrow> rule list \<Rightarrow> int \<Rightarrow> jsobject \<times> int \<times> bool \<times> engine \<Rightarrow> jsobject \<times> int \<times> bool \<times> engine" where
  "fixpoint_loop ev h sortedRules maxIterations (currentState, iter, changed, eng) =
     (if changed \<and> iter < maxIterations
      then fixpoint_loop ev h sortedRules maxIterations
             (iteration_body ev h sortedRules (currentState, iter, changed, eng))
      else (currentState, iter, changed, eng))"
  by pat_completeness auto
termination
proof (relation "measure (\<lambda>(ev, h, rs, m, st, it, ch, eng). nat (m - it))")
  show "wf (measure (\<lambda>(ev, h, rs, m, st, it, ch, eng). nat (m - it)))" by simp
next
  fix ev :: evaluator and h :: host and sortedRules maxIterations currentState
    and iter :: int and changed eng
  assume a: "changed \<and> iter < maxIterations"
  obtain st' it' ch' eng' where
    b: "iteration_body ev h sortedRules (currentState, iter, changed, eng) = (st', it', ch', eng')"
    by (cases "iteration_body ev h sortedRules (currentState, iter, changed, eng)") auto
  have "it' = iter + 1"
    using iteration_body_counts [of ev h sortedRules currentState iter changed eng] b by simp
  with a b show "((ev, h, sortedRules, maxIterations,
          iteration_body ev h sortedRules (currentState, iter, changed, eng)),
         ev, h, sortedRules, maxIterations, currentState, iter, changed, eng)
        \<in> measure (\<lambda>(ev, h, rs, m, st, it, ch, eng). nat (m - it))"
    by simp
qed

declare fixpoint_loop.simps [simp del]

text \<open>\<^verbatim>\<open>a.priority || 999\<close>, \<^verbatim>\<open>r.priority || 'default'\<close> and \<^verbatim>\<open>rulesConfig.max_iterations || 10\<close>.\<close>

definition sort_priority :: "rule \<Rightarrow> int" where
  "sort_priority r = (case priority r of None \<Rightarrow> 999 | Some p \<Rightarrow> if p = 0 then 999 else p)"

definition priority_text :: "rule \<Rightarrow> string" where
  "priority_text r = (case priority r of None \<Rightarrow> ''default'' | Some p \<Rightarrow> if p = 0 then ''default'' else show_int p)"

definition maxIterations_of :: "rules_config \<Rightarrow> int" where
  "maxIterations_of cfg = (case max_iterations cfg of None \<Rightarrow> 10 | Some m \<Rightarrow> if m = 0 then 10 else m)"

text \<open>\<^verbatim>\<open>[...rules].sort((a, b) => (a.priority || 999) - (b.priority || 999))\<close>: a stable sort.\<close>

definition sortedRules_of :: "rules_config \<Rightarrow> rule list" where
  "sortedRules_of cfg = sort_key sort_priority (rules cfg)"

definition fresh_engine :: engine where
  "fresh_engine = \<lparr>auditTrail = [], conflictLog = [], currentIteration = 0, clock = 0\<rparr>"

definition axis_apply :: "evaluator \<Rightarrow> host \<Rightarrow> jsobject \<Rightarrow> rules_config \<Rightarrow> result" where
  "axis_apply ev h inputData rulesConfig =
     (let currentState = deep_copy inputData;
          maxIterations = maxIterations_of rulesConfig;
          eng1 = log h fresh_engine ''Starting rule application'' ''info'';
          eng2 = log h eng1 (''Rules: '' @ show_nat (length (rules rulesConfig))) ''info'';
          sortedRules = sortedRules_of rulesConfig;
          eng3 = log h eng2
                   (''Execution order: '' @
                    join [CHR '' '', CHR 0xE2, CHR 0x86, CHR 0x92, CHR '' '']
                      (map (\<lambda>r. name r @ ''('' @ priority_text r @ '')'') sortedRules))
                   ''info''
      in case fixpoint_loop ev h sortedRules maxIterations (currentState, 0, True, eng3) of
           (finalState, iter, changed, eng4) \<Rightarrow>
             (let eng5 = (if iter \<ge> maxIterations
                          then log h eng4 (''Stopped at max iterations: '' @ show_int maxIterations) ''warning''
                          else eng4);
                  eng6 = log h eng5 (''Completed in '' @ show_int iter @ '' iterations'') ''info''
              in \<lparr>res_input = inputData, res_output = finalState, iterations = iter,
                  audit = auditTrail eng6, conflicts = conflictLog eng6,
                  rulesApplied = getRulesApplied eng6, engine_version = ''1.0.0''\<rparr>))"

section \<open>A host evaluator for a fragment of the expression language\<close>

text \<open>
  The engine hands every expression to the host's \<^verbatim>\<open>Function\<close> constructor. The
  general results below hold for any evaluator; the concrete runs use \<open>js_eval\<close>,
  which follows the host on a fragment: decimal integer literals, \<^verbatim>\<open>true\<close>, \<^verbatim>\<open>false\<close>,
  \<^verbatim>\<open>null\<close>, names bound to primitives of the state, the binary \<^verbatim>\<open>*\<close>, \<^verbatim>\<open>+\<close>, \<^verbatim>\<open>-\<close> on
  numbers (left to right, \<^verbatim>\<open>*\<close> first) and at most one of \<^verbatim>\<open><\<close>, \<^verbatim>\<open><=\<close>, \<^verbatim>\<open>></\<close>, \<^verbatim>\<open>>=\<close> on
  numbers. It fails as the host does when a parameter name (a key of the context)
  is no identifier, on a syntax error of the fragment's tokens and on an unbound
  name. It also answers \<open>Inl\<close> for every expression outside the fragment, where it
  says nothing about the host; each run below stays inside. The message of a
  failure is a placeholder for the host's own text.
\<close>

datatype token = TNum nat | TIdent string | TSym string

datatype pending = PNone | PNum string | PIdent string | PLess | PGreater

text \<open>The ASCII classes, by character code: \<^verbatim>\<open>0-9\<close>, and \<^verbatim>\<open>a-z\<close>, \<^verbatim>\<open>A-Z\<close>, \<^verbatim>\<open>_\<close>, \<^verbatim>\<open>$\<close>.\<close>

definition is_digit :: "char \<Rightarrow> bool" where
  "is_digit c = (let n = (of_char c :: nat) in 48 \<le> n \<and> n \<le> 57)"

definition is_ident_start :: "char \<Rightarrow> bool" where
  "is_ident_start c =
     (let n = (of_char c :: nat) in
        (97 \<le> n \<and> n \<le> 122) \<or> (65 \<le> n \<and> n \<le> 90) \<or> n = 95 \<or> n = 36)"

definition read_nat :: "string \<Rightarrow> nat" where
  "read_nat ds = fold (\<lambda>c n. 10 * n + (of_char c - of_char (CHR ''0''))) ds 0"

text \<open>Closing the token in progress. A literal such as \<^verbatim>\<open>012\<close> (legacy octal) is outside the fragment.\<close>

fun flush :: "pending \<Rightarrow> token list option" where
  "flush PNone = Some []"
| "flush (PNum ds) = (if length ds > 1 \<and> hd ds = CHR ''0'' then None else Some [TNum (read_nat ds)])"
| "flush (PIdent x) = Some [TIdent x]"
| "flush PLess = Some [TSym ''<'']"
| "flush PGreater = Some [TSym ''>'']"

definition emit :: "pending \<Rightarrow> token list \<Rightarrow> token list option \<Rightarrow> token list option" where
  "emit p ts later =
     (case (flush p, later) of
        (Some front, Some back) \<Rightarrow> Some (front @ ts @ back)
      | _ \<Rightarrow> None)"

primrec lex :: "string \<Rightarrow> pending \<Rightarrow> token list option" where
  "lex [] p = flush p"
| "lex (c # cs) p =
     (if is_digit c then
        (case p of
           PNum ds \<Rightarrow> lex cs (PNum (ds @ [c]))
         | PIdent x \<Rightarrow> lex cs (PIdent (x @ [c]))
         | _ \<Rightarrow> emit p [] (lex cs (PNum [c])))
      else if is_ident_start c then
        (case p of
           PIdent x \<Rightarrow> lex cs (PIdent (x @ [c]))
         | PNum ds \<Rightarrow> None
         | _ \<Rightarrow> emit p [] (lex cs (PIdent [c])))
      else if c = CHR ''='' then
        (case p of
           PLess \<Rightarrow> emit PNone [TSym ''<=''] (lex cs PNone)
         | PGreater \<Rightarrow> emit PNone [TSym ''>=''] (lex cs PNone)
         | _ \<Rightarrow> None)
      else if c = CHR ''<'' then emit p [] (lex cs PLess)
      else if c = CHR ''>'' then emit p [] (lex cs PGreater)
      else if c = CHR ''+'' \<or> c = CHR ''-'' \<or> c = CHR ''*'' then emit p [TSym [c]] (lex cs PNone)
      else if c = CHR '' '' \<or> c = CHR 0x09 then emit p [] (lex cs PNone)
      else None)"

text \<open>The operands between the operators of one precedence level, and those operators.\<close>

fun split_at_ops :: "string list \<Rightarrow> token list \<Rightarrow> token list list \<times> string list" where
  "split_at_ops ops [] = ([[]], [])"
| "split_at_ops ops (t # ts) =
     (case split_at_ops ops ts of
        (operand # operands, used) \<Rightarrow>
          (case t of
             TSym x \<Rightarrow> if x \<in> set ops then ([] # operand # operands, x # used)
                       else ((t # operand) # operands, used)
           | _ \<Rightarrow> ((t # operand) # operands, used))
      | ([], used) \<Rightarrow> ([[t]], used))"

definition reserved_words :: "string list" where
  "reserved_words = [''break'', ''case'', ''catch'', ''class'', ''const'', ''continue'', ''debugger'',
     ''default'', ''delete'', ''do'', ''else'', ''enum'', ''export'', ''extends'', ''false'', ''finally'',
     ''for'', ''function'', ''if'', ''import'', ''in'', ''instanceof'', ''new'', ''null'', ''return'',
     ''super'', ''switch'', ''this'', ''throw'', ''true'', ''try'', ''typeof'', ''var'', ''void'',
     ''while'', ''with'']"

definition valid_parameter :: "string \<Rightarrow> bool" where
  "valid_parameter k =
     (k \<noteq> [] \<and> is_ident_start (hd k) \<and> list_all (\<lambda>c. is_ident_start c \<or> is_digit c) (tl k)
      \<and> k \<notin> set reserved_words)"

fun eval_atom :: "evalctx \<Rightarrow> token list \<Rightarrow> prim option" where
  "eval_atom ctx [TNum n] = Some (JNum (int n))"
| "eval_atom ctx [TIdent x] =
     (if x = ''true'' then Some (JBool True)
      else if x = ''false'' then Some (JBool False)
      else if x = ''null'' then Some JNull
      else if x \<in> set reserved_words then None
      else (case obj_get ctx x of Some (StateVal (Prim p)) \<Rightarrow> Some p | _ \<Rightarrow> None))"
| "eval_atom ctx ts = None"

text \<open>Left to right through one level: a lone operand passes through, operators take numbers.\<close>

fun eval_chain :: "(string \<Rightarrow> int \<Rightarrow> int \<Rightarrow> prim) \<Rightarrow> prim option \<Rightarrow> string list \<Rightarrow> prim option list \<Rightarrow> prim option" where
  "eval_chain f acc [] [] = acc"
| "eval_chain f (Some (JNum a)) (x # xs) (Some (JNum b) # vs) =
     (case f x a b of JNum c \<Rightarrow> eval_chain f (Some (JNum c)) xs vs
      | other \<Rightarrow> (if xs = [] \<and> vs = [] then Some other else None))"
| "eval_chain f acc xs vs = None"

definition arith :: "string \<Rightarrow> int \<Rightarrow> int \<Rightarrow> prim" where
  "arith x a b = (if x = ''*'' then JNum (a * b) else if x = ''+'' then JNum (a + b) else JNum (a - b))"

definition compare :: "string \<Rightarrow> int \<Rightarrow> int \<Rightarrow> prim" where
  "compare x a b =
     (if x = ''<'' then JBool (a < b) else if x = ''<='' then JBool (a \<le> b)
      else if x = ''>'' then JBool (a > b) else JBool (a \<ge> b))"

definition eval_level :: "(string \<Rightarrow> int \<Rightarrow> int \<Rightarrow> prim) \<Rightarrow> string list \<Rightarrow> (token list \<Rightarrow> prim option) \<Rightarrow> token list \<Rightarrow> prim option" where
  "eval_level f ops below ts =
     (case split_at_ops ops ts of
        (operand # operands, used) \<Rightarrow> eval_chain f (below operand) used (map below operands)
      | _ \<Rightarrow> None)"

definition eval_tokens :: "evalctx \<Rightarrow> token list \<Rightarrow> prim option" where
  "eval_tokens ctx =
     eval_level compare [''<'', ''<='', ''>'', ''>='']
       (eval_level arith [''+'', ''-''] (eval_level arith [''*''] (eval_atom ctx)))"

definition js_eval :: evaluator where
  "js_eval r ctx expr =
     (if \<not> list_all valid_parameter (map fst ctx) then Inl ''SyntaxError''
      else (case lex expr PNone of
              None \<Rightarrow> Inl ''SyntaxError''
            | Some ts \<Rightarrow> (case eval_tokens ctx ts of None \<Rightarrow> Inl ''Error'' | Some v \<Rightarrow> Inr v)))"

section \<open>Definitions used to state the claims\<close>

text \<open>
  The conflict entries as the specification describes them, for one rule writing
  the paths \<open>ps\<close> in order during sweep \<open>n\<close>: \<open>written\<close> holds, for every path written
  so far in the sweep, the rule that wrote it last; a path already written gets an
  entry, and no entry otherwise.
\<close>

fun expected_conflicts :: "(string \<rightharpoonup> string) \<Rightarrow> string \<Rightarrow> string list \<Rightarrow> int \<Rightarrow> conflict list" where
  "expected_conflicts written ruleName [] n = []"
| "expected_conflicts written ruleName (p # ps) n =
     (case written p of
        Some prev \<Rightarrow> [\<lparr>field = p, previousRule = prev, currentRule = ruleName,
                        resolution = ''priority_override'', iteration = n\<rparr>]
      | None \<Rightarrow> [])
     @ expected_conflicts (written(p \<mapsto> ruleName)) ruleName ps n"

text \<open>
  An evaluator that never consults the clock or the random source, and a value of a
  \<^verbatim>\<open>then\<close> that resolves to one of the builtins \<^verbatim>\<open>now()\<close>, \<^verbatim>\<open>timestamp()\<close>, \<^verbatim>\<open>uuid()\<close>.
\<close>

definition host_free :: "evaluator \<Rightarrow> bool" where
  "host_free ev = (\<forall>r r' ctx e. ev r ctx e = ev r' ctx e)"

fun uses_host :: "prim \<Rightarrow> bool" where
  "uses_host (JStr t) =
     (str_includes t ''{{'' \<and> str_includes t ''}}'' \<and>
      trim (strip_wrappers t) \<in> {''now()'', ''timestamp()'', ''uuid()''})"
| "uses_host v = False"

definition host_free_rule :: "rule \<Rightarrow> bool" where
  "host_free_rule r = (case rule_then r of None \<Rightarrow> True | Some ts \<Rightarrow> list_all (\<lambda>e. \<not> uses_host (snd e)) ts)"

text \<open>
  What one sweep over \<open>rs\<close> from the state \<open>st\<close>, numbered \<open>k\<close>, does when it starts
  with empty logs under a clock that stands still: the state it leaves, its
  \<^verbatim>\<open>changed\<close> flag, the rules it applied and the conflicts it recorded.
\<close>

definition sweep_summary :: "evaluator \<Rightarrow> rule list \<Rightarrow> jsobject \<Rightarrow> int \<Rightarrow> jsobject \<times> bool \<times> string list \<times> conflict list" where
  "sweep_summary ev rs st k =
     (case sweep ev (still_host [] 0) rs (st, False, Map.empty, fresh_engine\<lparr>currentIteration := k\<rparr>) of
        (s, c, m, e) \<Rightarrow> (s, c, getRulesApplied e, conflictLog e))"

text \<open>The engine as \<^verbatim>\<open>apply\<close> has it when it enters the loop: three entries logged.\<close>

definition apply_prologue :: "host \<Rightarrow> rules_config \<Rightarrow> engine" where
  "apply_prologue h cfg =
     log h
       (log h (log h fresh_engine ''Starting rule application'' ''info'')
          (''Rules: '' @ show_nat (length (rules cfg))) ''info'')
       (''Execution order: '' @
          join [CHR '' '', CHR 0xE2, CHR 0x86, CHR 0x92, CHR '' '']
            (map (\<lambda>r. name r @ ''('' @ priority_text r @ '')'') (sortedRules_of cfg)))
       ''info''"

text \<open>
  Some object of the state, the state itself or one nested in it, has an own
  property named \<^verbatim>\<open>hasOwnProperty\<close>.
\<close>

fun shadows :: "jsobject \<Rightarrow> bool" where
  "shadows [] = False"
| "shadows ((k, v) # rest) =
     (k = ''hasOwnProperty'' \<or> (case v of JObj kids \<Rightarrow> shadows kids | Prim p \<Rightarrow> False) \<or> shadows rest)"

text \<open>
  The paths on which \<^verbatim>\<open>setNestedPath\<close> stays inside the state as it is represented:
  no key \<^verbatim>\<open>__proto__\<close> and no key made of digits only.
\<close>

definition digits_only :: "string \<Rightarrow> bool" where
  "digits_only k = (k \<noteq> [] \<and> list_all is_digit k)"

definition plain_path :: "string \<Rightarrow> bool" where
  "plain_path p = list_all (\<lambda>k. k \<noteq> ''__proto__'' \<and> \<not> digits_only k) (split_dots p)"

definition plain_rule :: "rule \<Rightarrow> bool" where
  "plain_rule r = (case rule_then r of None \<Rightarrow> True | Some ts \<Rightarrow> list_all (\<lambda>e. plain_path (fst e)) ts)"

text \<open>
  The loop of \<^verbatim>\<open>apply\<close> as its summaries see it: the state, the sweep counter, the
  \<^verbatim>\<open>changed\<close> flag, the rules applied so far and the conflicts recorded so far.
\<close>

definition summary_step ::
  "evaluator \<Rightarrow> rule list \<Rightarrow> jsobject \<times> int \<times> bool \<times> string list \<times> conflict list \<Rightarrow>
   jsobject \<times> int \<times> bool \<times> string list \<times> conflict list" where
  "summary_step ev rs s =
     (case s of (st, it, ch, ns, cs) \<Rightarrow>
        (case sweep_summary ev rs st (it + 1) of
           (st', ch', ns', cs') \<Rightarrow> (st', it + 1, ch', ns @ ns', cs @ cs')))"

lemma summary_step_counts: "fst (snd (summary_step ev rs (st, it, ch, ns, cs))) = it + 1"
  by (simp add: summary_step_def split: prod.splits)

function summary_loop ::
  "evaluator \<Rightarrow> rule list \<Rightarrow> int \<Rightarrow> jsobject \<times> int \<times> bool \<times> string list \<times> conflict list \<Rightarrow>
   jsobject \<times> int \<times> bool \<times> string list \<times> conflict list" where
  "summary_loop ev rs M (st, it, ch, ns, cs) =
     (if ch \<and> it < M then summary_loop ev rs M (summary_step ev rs (st, it, ch, ns, cs))
      else (st, it, ch, ns, cs))"
  by pat_completeness auto
termination
proof (relation "measure (\<lambda>(ev, rs, m, st, it, ch, ns, cs). nat (m - it))")
  show "wf (measure (\<lambda>(ev, rs, m, st, it, ch, ns, cs). nat (m - it)))" by simp
next
  fix ev :: evaluator and rs M st and it :: int and ch ns cs
  assume a: "ch \<and> it < M"
  obtain st' it' ch' ns' cs' where
    b: "summary_step ev rs (st, it, ch, ns, cs) = (st', it', ch', ns', cs')"
    by (cases "summary_step ev rs (st, it, ch, ns, cs)") auto
  have "it' = it + 1"
    using summary_step_counts [of ev rs st it ch ns cs] b by simp
  with a b show "((ev, rs, M, summary_step ev rs (st, it, ch, ns, cs)), ev, rs, M, st, it, ch, ns, cs)
        \<in> measure (\<lambda>(ev, rs, m, st, it, ch, ns, cs). nat (m - it))"
    by simp
qed

declare summary_loop.simps [simp del]

text \<open>The sample scenarios of the specification, and a rule that stamps the time.\<close>

definition double_rule :: rule where
  "double_rule = \<lparr>name = ''double'', priority = Some 1, rule_if = CStr ''a < 10'',
     rule_then = Some [(''a'', JStr ''{{ a * 2 }}'')]\<rparr>"

definition double_config :: rules_config where
  "double_config = \<lparr>max_iterations = Some 10, rules = [double_rule]\<rparr>"

definition rule_r1 :: rule where
  "rule_r1 = \<lparr>name = ''r1'', priority = Some 1, rule_if = CBool True, rule_then = Some [(''status'', JStr ''A'')]\<rparr>"

definition rule_r2 :: rule where
  "rule_r2 = \<lparr>name = ''r2'', priority = Some 2, rule_if = CBool True, rule_then = Some [(''status'', JStr ''B'')]\<rparr>"

definition conflict_config :: rules_config where
  "conflict_config = \<lparr>max_iterations = None, rules = [rule_r1, rule_r2]\<rparr>"

definition stamp_rule :: rule where
  "stamp_rule = \<lparr>name = ''stamp'', priority = None, rule_if = CAbsent,
     rule_then = Some [(''t'', JStr ''{{now()}}'')]\<rparr>"

definition stamp_config :: rules_config where
  "stamp_config = \<lparr>max_iterations = None, rules = [stamp_rule]\<rparr>"

section \<open>Basic facts\<close>




lemma getRulesApplied_log:
  "getRulesApplied (log h eng msg lvl) =
     getRulesApplied eng @ (if starts_with msg ''Applied:'' then [replace_first ''Applied: '' [] msg] else [])"
  by (simp add: getRulesApplied_def log_def)

lemma getRulesApplied_clock [simp]: "getRulesApplied (eng\<lparr>clock := n\<rparr>) = getRulesApplied eng"
  by (simp add: getRulesApplied_def)

lemma getRulesApplied_currentIteration [simp]:
  "getRulesApplied (eng\<lparr>currentIteration := n\<rparr>) = getRulesApplied eng"
  by (simp add: getRulesApplied_def)

lemma getRulesApplied_conflictLog [simp]:
  "getRulesApplied (eng\<lparr>conflictLog := c\<rparr>) = getRulesApplied eng"
  by (simp add: getRulesApplied_def)

lemma getRulesApplied_fresh [simp]: "getRulesApplied fresh_engine = []"
  by (simp add: getRulesApplied_def fresh_engine_def)

lemma conflictLog_fresh [simp]: "conflictLog fresh_engine = []"
  by (simp add: fresh_engine_def)

lemma conflictLog_log [simp]: "conflictLog (log h eng msg lvl) = conflictLog eng"
  by (simp add: log_def)

lemma currentIteration_log [simp]: "currentIteration (log h eng msg lvl) = currentIteration eng"
  by (simp add: log_def)

lemma set_sortedRules_of [simp]: "set (sortedRules_of cfg) = set (rules cfg)"
  by (simp add: sortedRules_of_def)


subsection \<open>A failing evaluation\<close>






subsection \<open>What a step does to the logs, and what it does not depend on\<close>

lemma evaluateCondition_conflictLog [simp]:
  "conflictLog (snd (evaluateCondition ev h c ctx eng)) = conflictLog eng"
  by (simp add: evaluateCondition_def Let_def split: sum.splits)

lemma evaluateCondition_currentIteration [simp]:
  "currentIteration (snd (evaluateCondition ev h c ctx eng)) = currentIteration eng"
  by (simp add: evaluateCondition_def Let_def split: sum.splits)

lemma evaluateCondition_getRulesApplied [simp]:
  "getRulesApplied (snd (evaluateCondition ev h c ctx eng)) = getRulesApplied eng"
  by (simp add: evaluateCondition_def Let_def getRulesApplied_log starts_with_def split: sum.splits)

lemma resolveValue_conflictLog [simp]:
  "conflictLog (snd (resolveValue ev h v ctx eng)) = conflictLog eng"
  by (simp add: resolveValue_def Let_def split: sum.splits prim.splits)

lemma resolveValue_currentIteration [simp]:
  "currentIteration (snd (resolveValue ev h v ctx eng)) = currentIteration eng"
  by (simp add: resolveValue_def Let_def split: sum.splits prim.splits)

lemma resolveValue_getRulesApplied [simp]:
  "getRulesApplied (snd (resolveValue ev h v ctx eng)) = getRulesApplied eng"
  by (simp add: resolveValue_def Let_def getRulesApplied_log starts_with_def split: sum.splits prim.splits)

lemma transform_entries_logs:
  "transform_entries ev h nm ts (st, cm, eng) = (st', cm', eng') \<Longrightarrow>
     conflictLog eng' = conflictLog eng @ expected_conflicts cm nm (map fst ts) (currentIteration eng)
     \<and> currentIteration eng' = currentIteration eng
     \<and> getRulesApplied eng' = getRulesApplied eng
     \<and> (\<forall>q. cm' q = (if q \<in> fst ` set ts then Some nm else cm q))"
proof (induction ts arbitrary: st cm eng)
  case Nil
  then show ?case by simp
next
  case (Cons e ts)
  obtain p v where e: "e = (p, v)" by (cases e)
  obtain rv e1 where r: "resolveValue ev h v st eng = (rv, e1)"
    by (cases "resolveValue ev h v st eng")
  have o1: "conflictLog e1 = conflictLog eng" "currentIteration e1 = currentIteration eng"
    "getRulesApplied e1 = getRulesApplied eng"
    using resolveValue_conflictLog [of ev h v st eng] resolveValue_currentIteration [of ev h v st eng]
      resolveValue_getRulesApplied [of ev h v st eng] r by simp_all
  show ?case
  proof (cases "cm p")
    case None
    with Cons.prems e r have
      "transform_entries ev h nm ts (setNestedPath st p (Prim rv), cm(p \<mapsto> nm), e1) = (st', cm', eng')"
      by simp
    from Cons.IH [OF this] have
      "conflictLog eng' = conflictLog e1 @ expected_conflicts (cm(p \<mapsto> nm)) nm (map fst ts) (currentIteration e1)"
      "currentIteration eng' = currentIteration e1" "getRulesApplied eng' = getRulesApplied e1"
      "\<forall>q. cm' q = (if q \<in> fst ` set ts then Some nm else (cm(p \<mapsto> nm)) q)"
      by blast+
    then show ?thesis unfolding e o1 using None by simp
  next
    case (Some prev)
    let ?e2 = "log h (e1\<lparr>conflictLog := conflictLog e1 @
                   [\<lparr>field = p, previousRule = prev, currentRule = nm,
                     resolution = ''priority_override'', iteration = currentIteration e1\<rparr>]\<rparr>)
                (''Conflict: '' @ prev @ '' vs '' @ nm @ '' on '' @ p @
                   [CHR '' '', CHR 0xE2, CHR 0x86, CHR 0x92, CHR '' ''] @ nm @ '' wins'')
                ''warning''"
    from Cons.prems e r Some have
      "transform_entries ev h nm ts (setNestedPath st p (Prim rv), cm(p \<mapsto> nm), ?e2) = (st', cm', eng')"
      by simp
    from Cons.IH [OF this] have
      "conflictLog eng' = conflictLog ?e2 @ expected_conflicts (cm(p \<mapsto> nm)) nm (map fst ts) (currentIteration ?e2)"
      "currentIteration eng' = currentIteration ?e2" "getRulesApplied eng' = getRulesApplied ?e2"
      "\<forall>q. cm' q = (if q \<in> fst ` set ts then Some nm else (cm(p \<mapsto> nm)) q)"
      by blast+
    then show ?thesis unfolding e using Some o1
      by (simp add: getRulesApplied_log starts_with_def)
  qed
qed

lemma rule_step_logs:
  "rule_step ev h r (st, ch, cm, eng) = (st', ch', cm', eng') \<Longrightarrow>
     currentIteration eng' = currentIteration eng
     \<and> getRulesApplied eng' = getRulesApplied eng @
          (if fst (evaluateCondition ev h (rule_if r) st eng) then [name r] else [])
     \<and> ch' = (ch \<or> st' \<noteq> st)"
proof -
  assume a: "rule_step ev h r (st, ch, cm, eng) = (st', ch', cm', eng')"
  obtain b e1 where c: "evaluateCondition ev h (rule_if r) st eng = (b, e1)"
    by (cases "evaluateCondition ev h (rule_if r) st eng")
  have o1: "currentIteration e1 = currentIteration eng" "getRulesApplied e1 = getRulesApplied eng"
    using evaluateCondition_currentIteration [of ev h "rule_if r" st eng]
      evaluateCondition_getRulesApplied [of ev h "rule_if r" st eng] c by simp_all
  show ?thesis
  proof (cases b)
    case False
    with a c o1 show ?thesis
      by (auto simp: rule_step_def getRulesApplied_log starts_with_def)
  next
    case True
    show ?thesis
    proof (cases "rule_then r")
      case None
      with a c o1 True show ?thesis
        by (auto simp: rule_step_def getRulesApplied_log starts_with_def)
    next
      case (Some ts)
      let ?e2 = "log h e1 (''Applied: '' @ name r) ''info''"
      obtain s2 c2 e3 where t: "transform_entries ev h (name r) ts (st, cm, ?e2) = (s2, c2, e3)"
        by (cases "transform_entries ev h (name r) ts (st, cm, ?e2)")
      from transform_entries_logs [OF t] have
        o3: "currentIteration e3 = currentIteration ?e2" "getRulesApplied e3 = getRulesApplied ?e2"
        by simp_all
      from a c True Some t have "st' = s2" "ch' = (ch \<or> st \<noteq> s2)" "eng' = e3"
        by (auto simp: rule_step_def applyTransformationsWithTracking_def deep_copy_def JSON_stringify_def)
      with o3 o1 c True show ?thesis
        by (auto simp: getRulesApplied_log starts_with_def)
    qed
  qed
qed

lemma sweep_Nil [simp]: "sweep ev h [] s = s"
  by (simp add: sweep_def)

lemma sweep_Cons [simp]: "sweep ev h (r # rs) s = sweep ev h rs (rule_step ev h r s)"
  by (simp add: sweep_def)

lemma sweep_logs:
  "sweep ev h rs (st, ch, cm, eng) = (st', ch', cm', eng') \<Longrightarrow>
     currentIteration eng' = currentIteration eng \<and> (\<not> ch' \<longrightarrow> st' = st \<and> \<not> ch)"
proof (induction rs arbitrary: st ch cm eng)
  case Nil
  then show ?case by simp
next
  case (Cons r rs)
  obtain s1 c1 m1 e1 where 1: "rule_step ev h r (st, ch, cm, eng) = (s1, c1, m1, e1)"
    by (cases "rule_step ev h r (st, ch, cm, eng)") auto
  from Cons.prems 1 have 2: "sweep ev h rs (s1, c1, m1, e1) = (st', ch', cm', eng')" by simp
  from rule_step_logs [OF 1] Cons.IH [OF 2] show ?case by auto
qed

lemma iteration_body_unchanged:
  "iteration_body ev h rs (st, it, ch, eng) = (st', it', ch', eng') \<Longrightarrow>
     it' = it + 1 \<and> (\<not> ch' \<longrightarrow> st' = st)"
proof -
  assume a: "iteration_body ev h rs (st, it, ch, eng) = (st', it', ch', eng')"
  let ?e1 = "log h (eng\<lparr>currentIteration := it + 1\<rparr>) (''--- Iteration '' @ show_int (it + 1) @ '' ---'') ''info''"
  obtain s2 c2 m2 e2 where 1: "sweep ev h rs (st, False, Map.empty, ?e1) = (s2, c2, m2, e2)"
    by (cases "sweep ev h rs (st, False, Map.empty, ?e1)") auto
  from a 1 have "st' = s2" "ch' = c2" "it' = it + 1"
    by (auto simp: iteration_body_def split: if_splits)
  with sweep_logs [OF 1] show ?thesis by simp
qed

lemma try_evaluate_host_free:
  "host_free ev \<Longrightarrow> try_evaluate ev rd st e = try_evaluate ev rd' st e"
  unfolding host_free_def try_evaluate_def by (auto split: sum.splits)

lemma evaluateCondition_host_free:
  "host_free ev \<Longrightarrow>
     fst (evaluateCondition ev h c st eng) = fst (evaluateCondition ev h' c st eng')"
proof -
  assume "host_free ev"
  then have "try_evaluate ev (h (clock eng)) st (condition_text c)
           = try_evaluate ev (h' (clock eng')) st (condition_text c)"
    by (rule try_evaluate_host_free)
  then show ?thesis
    by (simp add: evaluateCondition_def Let_def split: sum.splits)
qed

lemma resolveValue_host_free:
  "host_free ev \<Longrightarrow> \<not> uses_host v \<Longrightarrow>
     fst (resolveValue ev h v st eng) = fst (resolveValue ev h' v st eng')"
proof (cases v)
  case (JStr t)
  assume hf: "host_free ev" and nu: "\<not> uses_host v"
  have "try_evaluate ev (h (clock eng)) st (trim (strip_wrappers t))
           = try_evaluate ev (h' (clock eng')) st (trim (strip_wrappers t))"
    using hf by (rule try_evaluate_host_free)
  with nu JStr show ?thesis
    by (auto simp: resolveValue_def Let_def split: sum.splits)
qed (simp_all add: resolveValue_def)

lemma transform_entries_host_free:
  "host_free ev \<Longrightarrow> list_all (\<lambda>e. \<not> uses_host (snd e)) ts \<Longrightarrow>
     fst (transform_entries ev h nm ts (st, cm, eng)) = fst (transform_entries ev h' nm ts (st, cm, eng'))
     \<and> fst (snd (transform_entries ev h nm ts (st, cm, eng)))
         = fst (snd (transform_entries ev h' nm ts (st, cm, eng')))"
proof (induction ts arbitrary: st cm eng eng')
  case Nil
  then show ?case by simp
next
  case (Cons e ts)
  obtain p v where e: "e = (p, v)" by (cases e)
  obtain rv e1 where r1: "resolveValue ev h v st eng = (rv, e1)"
    by (cases "resolveValue ev h v st eng")
  obtain rv' e1' where r2: "resolveValue ev h' v st eng' = (rv', e1')"
    by (cases "resolveValue ev h' v st eng'")
  have "rv = rv'"
    using resolveValue_host_free [of ev v h st eng h' eng'] Cons.prems e r1 r2 by simp
  with Cons.prems e r1 r2 show ?case
    using Cons.IH by (simp split: option.splits)
qed

lemma rule_step_host_free:
  assumes hf: "host_free ev" and fr: "host_free_rule r"
    and 1: "rule_step ev h r (st, ch, cm, e1) = (s1, c1, m1, e1')"
    and 2: "rule_step ev h' r (st, ch, cm, e2) = (s2, c2, m2, e2')"
  shows "s1 = s2 \<and> c1 = c2 \<and> m1 = m2 \<and>
         (\<exists>ns. getRulesApplied e1' = getRulesApplied e1 @ ns \<and> getRulesApplied e2' = getRulesApplied e2 @ ns)"
proof -
  obtain b x1 where a1: "evaluateCondition ev h (rule_if r) st e1 = (b, x1)"
    by (cases "evaluateCondition ev h (rule_if r) st e1")
  obtain b' x2 where a2: "evaluateCondition ev h' (rule_if r) st e2 = (b', x2)"
    by (cases "evaluateCondition ev h' (rule_if r) st e2")
  have bb: "b' = b"
    using evaluateCondition_host_free [OF hf, of h "rule_if r" st e1 h' e2] a1 a2 by simp
  have ns: "\<exists>ns. getRulesApplied e1' = getRulesApplied e1 @ ns \<and> getRulesApplied e2' = getRulesApplied e2 @ ns"
    using rule_step_logs [OF 1] rule_step_logs [OF 2] a1 a2 bb by simp
  have "s1 = s2 \<and> m1 = m2"
  proof (cases "b \<and> rule_then r \<noteq> None")
    case False
    with 1 2 a1 a2 bb show ?thesis
      by (cases b) (auto simp: rule_step_def)
  next
    case True
    then obtain ts where ts: "rule_then r = Some ts" by auto
    from fr ts have la: "list_all (\<lambda>e. \<not> uses_host (snd e)) ts"
      by (simp add: host_free_rule_def)
    let ?t1 = "transform_entries ev h (name r) ts (st, cm, log h x1 (''Applied: '' @ name r) ''info'')"
    let ?t2 = "transform_entries ev h' (name r) ts (st, cm, log h' x2 (''Applied: '' @ name r) ''info'')"
    from 1 a1 True ts have "s1 = fst ?t1" "m1 = fst (snd ?t1)"
      by (auto simp: rule_step_def applyTransformationsWithTracking_def deep_copy_def split: prod.splits)
    moreover from 2 a2 bb True ts have "s2 = fst ?t2" "m2 = fst (snd ?t2)"
      by (auto simp: rule_step_def applyTransformationsWithTracking_def deep_copy_def split: prod.splits)
    ultimately show ?thesis
      using transform_entries_host_free [OF hf la, of h "name r" st cm _ h'] by simp
  qed
  moreover have "c1 = c2"
    using rule_step_logs [OF 1] rule_step_logs [OF 2] calculation by simp
  ultimately show ?thesis using ns by simp
qed

lemma sweep_host_free:
  assumes hf: "host_free ev" and fr: "list_all host_free_rule rs"
    and 1: "sweep ev h rs (st, ch, cm, e1) = (s1, c1, m1, e1')"
    and 2: "sweep ev h' rs (st, ch, cm, e2) = (s2, c2, m2, e2')"
  shows "s1 = s2 \<and> c1 = c2 \<and> m1 = m2 \<and>
         (\<exists>ns. getRulesApplied e1' = getRulesApplied e1 @ ns \<and> getRulesApplied e2' = getRulesApplied e2 @ ns)"
  using fr 1 2
proof (induction rs arbitrary: st ch cm e1 e2)
  case Nil
  then show ?case by simp
next
  case (Cons r rs)
  obtain sa ca ma ea where a: "rule_step ev h r (st, ch, cm, e1) = (sa, ca, ma, ea)"
    by (cases "rule_step ev h r (st, ch, cm, e1)") auto
  obtain sb cb mb eb where b: "rule_step ev h' r (st, ch, cm, e2) = (sb, cb, mb, eb)"
    by (cases "rule_step ev h' r (st, ch, cm, e2)") auto
  from Cons.prems(1) have fr1: "host_free_rule r" and frs: "list_all host_free_rule rs" by simp_all
  from rule_step_host_free [OF hf fr1 a b] obtain ns where
    eq: "sa = sb" "ca = cb" "ma = mb" and
    ns: "getRulesApplied ea = getRulesApplied e1 @ ns" "getRulesApplied eb = getRulesApplied e2 @ ns"
    by blast
  from Cons.prems(2) a have a2: "sweep ev h rs (sa, ca, ma, ea) = (s1, c1, m1, e1')" by simp
  from Cons.prems(3) b eq have b2: "sweep ev h' rs (sa, ca, ma, eb) = (s2, c2, m2, e2')" by simp
  from Cons.IH [OF frs a2 b2] obtain ms where
    "s1 = s2" "c1 = c2" "m1 = m2"
    "getRulesApplied e1' = getRulesApplied ea @ ms" "getRulesApplied e2' = getRulesApplied eb @ ms"
    by blast
  with ns show ?case by simp
qed

lemma iteration_body_host_free:
  assumes hf: "host_free ev" and fr: "list_all host_free_rule rs"
    and 1: "iteration_body ev h rs (st, it1, ch1, e1) = (s1, i1, c1, e1')"
    and 2: "iteration_body ev h' rs (st, it2, ch2, e2) = (s2, i2, c2, e2')"
  shows "s1 = s2 \<and> c1 = c2 \<and> i1 = it1 + 1 \<and> i2 = it2 + 1 \<and>
         (\<exists>ns. getRulesApplied e1' = getRulesApplied e1 @ ns \<and> getRulesApplied e2' = getRulesApplied e2 @ ns)"
proof -
  let ?a = "log h (e1\<lparr>currentIteration := it1 + 1\<rparr>) (''--- Iteration '' @ show_int (it1 + 1) @ '' ---'') ''info''"
  let ?b = "log h' (e2\<lparr>currentIteration := it2 + 1\<rparr>) (''--- Iteration '' @ show_int (it2 + 1) @ '' ---'') ''info''"
  obtain sa ca ma ea where a: "sweep ev h rs (st, False, Map.empty, ?a) = (sa, ca, ma, ea)"
    by (cases "sweep ev h rs (st, False, Map.empty, ?a)") auto
  obtain sb cb mb eb where b: "sweep ev h' rs (st, False, Map.empty, ?b) = (sb, cb, mb, eb)"
    by (cases "sweep ev h' rs (st, False, Map.empty, ?b)") auto
  from sweep_host_free [OF hf fr a b] obtain ns where
    eq: "sa = sb" "ca = cb" and
    ns: "getRulesApplied ea = getRulesApplied ?a @ ns" "getRulesApplied eb = getRulesApplied ?b @ ns"
    by blast
  from 1 a have r1: "s1 = sa" "c1 = ca" "i1 = it1 + 1" "getRulesApplied e1' = getRulesApplied ea"
    by (auto simp: iteration_body_def getRulesApplied_log starts_with_def split: if_splits)
  from 2 b have r2: "s2 = sb" "c2 = cb" "i2 = it2 + 1" "getRulesApplied e2' = getRulesApplied eb"
    by (auto simp: iteration_body_def getRulesApplied_log starts_with_def split: if_splits)
  from eq ns r1 r2 show ?thesis
    by (simp add: getRulesApplied_log starts_with_def)
qed

lemma fixpoint_loop_step:
  "ch \<and> it < M \<Longrightarrow>
     fixpoint_loop ev h rs M (st, it, ch, eng) = fixpoint_loop ev h rs M (iteration_body ev h rs (st, it, ch, eng))"
  by (simp add: fixpoint_loop.simps)

lemma fixpoint_loop_stop:
  "\<not> (ch \<and> it < M) \<Longrightarrow> fixpoint_loop ev h rs M (st, it, ch, eng) = (st, it, ch, eng)"
  by (auto simp: fixpoint_loop.simps)

lemma fixpoint_loop_host_free:
  assumes hf: "host_free ev" and fr: "list_all host_free_rule rs"
  shows "fixpoint_loop ev h rs M (st, it, ch, e1) = (s1, i1, c1, e1') \<Longrightarrow>
         fixpoint_loop ev h' rs M (st, it, ch, e2) = (s2, i2, c2, e2') \<Longrightarrow>
         s1 = s2 \<and> i1 = i2 \<and> c1 = c2 \<and>
         (\<exists>ns. getRulesApplied e1' = getRulesApplied e1 @ ns \<and> getRulesApplied e2' = getRulesApplied e2 @ ns)"
proof (induction "nat (M - it)" arbitrary: st it ch e1 e2)
  case 0
  then show ?case by (simp add: fixpoint_loop_stop)
next
  case (Suc n)
  show ?case
  proof (cases "ch \<and> it < M")
    case False
    with Suc.prems show ?thesis by (simp add: fixpoint_loop_stop)
  next
    case True
    obtain sa ia ca ea where a: "iteration_body ev h rs (st, it, ch, e1) = (sa, ia, ca, ea)"
      by (cases "iteration_body ev h rs (st, it, ch, e1)") auto
    obtain sb ib cb eb where b: "iteration_body ev h' rs (st, it, ch, e2) = (sb, ib, cb, eb)"
      by (cases "iteration_body ev h' rs (st, it, ch, e2)") auto
    from iteration_body_host_free [OF hf fr a b] obtain ns where
      eq: "sa = sb" "ca = cb" "ia = it + 1" "ib = it + 1" and
      ns: "getRulesApplied ea = getRulesApplied e1 @ ns" "getRulesApplied eb = getRulesApplied e2 @ ns"
      by blast
    have a2: "fixpoint_loop ev h rs M (sa, it + 1, ca, ea) = (s1, i1, c1, e1')"
      using Suc.prems(1) fixpoint_loop_step [OF True, of ev h rs st e1] a eq by simp
    have b2: "fixpoint_loop ev h' rs M (sa, it + 1, ca, eb) = (s2, i2, c2, e2')"
      using Suc.prems(2) fixpoint_loop_step [OF True, of ev h' rs st e2] b eq by simp
    from Suc.hyps(2) True have n: "n = nat (M - (it + 1))" by simp
    from Suc.hyps(1) [OF n a2 b2] obtain ms where
      "s1 = s2" "i1 = i2" "c1 = c2"
      "getRulesApplied e1' = getRulesApplied ea @ ms" "getRulesApplied e2' = getRulesApplied eb @ ms"
      by blast
    with ns show ?thesis by simp
  qed
qed

lemma rule_step_conflictLog:
  "rule_step ev h r (st, ch, cm, eng) = (st', ch', cm', eng') \<Longrightarrow>
     conflictLog eng' = conflictLog eng @
       (if fst (evaluateCondition ev h (rule_if r) st eng)
        then (case rule_then r of None \<Rightarrow> []
              | Some ts \<Rightarrow> expected_conflicts cm (name r) (map fst ts) (currentIteration eng))
        else [])"
proof -
  assume a: "rule_step ev h r (st, ch, cm, eng) = (st', ch', cm', eng')"
  obtain b e1 where c: "evaluateCondition ev h (rule_if r) st eng = (b, e1)"
    by (cases "evaluateCondition ev h (rule_if r) st eng")
  have o1: "currentIteration e1 = currentIteration eng" "conflictLog e1 = conflictLog eng"
    using evaluateCondition_currentIteration [of ev h "rule_if r" st eng]
      evaluateCondition_conflictLog [of ev h "rule_if r" st eng] c by simp_all
  show ?thesis
  proof (cases "b \<and> rule_then r \<noteq> None")
    case False
    with a c o1 show ?thesis
      by (cases b) (auto simp: rule_step_def)
  next
    case True
    then obtain ts where ts: "rule_then r = Some ts" by auto
    let ?e2 = "log h e1 (''Applied: '' @ name r) ''info''"
    obtain s2 c2 e3 where t: "transform_entries ev h (name r) ts (st, cm, ?e2) = (s2, c2, e3)"
      by (cases "transform_entries ev h (name r) ts (st, cm, ?e2)")
    from a c True ts t have "eng' = e3"
      by (auto simp: rule_step_def applyTransformationsWithTracking_def deep_copy_def)
    with transform_entries_logs [OF t] o1 c True ts show ?thesis by simp
  qed
qed

lemma sweep_conflicts_host_free:
  assumes hf: "host_free ev" and fr: "list_all host_free_rule rs"
    and 1: "sweep ev h rs (st, ch, cm, e1) = (s1, c1, m1, e1')"
    and 2: "sweep ev h' rs (st, ch, cm, e2) = (s2, c2, m2, e2')"
    and ci: "currentIteration e1 = currentIteration e2"
  shows "\<exists>cs. conflictLog e1' = conflictLog e1 @ cs \<and> conflictLog e2' = conflictLog e2 @ cs"
  using fr 1 2 ci
proof (induction rs arbitrary: st ch cm e1 e2)
  case Nil
  then show ?case by simp
next
  case (Cons r rs)
  obtain sa ca ma ea where a: "rule_step ev h r (st, ch, cm, e1) = (sa, ca, ma, ea)"
    by (cases "rule_step ev h r (st, ch, cm, e1)") auto
  obtain sb cb mb eb where b: "rule_step ev h' r (st, ch, cm, e2) = (sb, cb, mb, eb)"
    by (cases "rule_step ev h' r (st, ch, cm, e2)") auto
  from Cons.prems(1) have fr1: "host_free_rule r" and frs: "list_all host_free_rule rs" by simp_all
  from rule_step_host_free [OF hf fr1 a b] have eq: "sa = sb" "ca = cb" "ma = mb" by simp_all
  have fired: "fst (evaluateCondition ev h (rule_if r) st e1) = fst (evaluateCondition ev h' (rule_if r) st e2)"
    by (rule evaluateCondition_host_free [OF hf])
  let ?cs = "if fst (evaluateCondition ev h (rule_if r) st e1)
             then (case rule_then r of None \<Rightarrow> []
                   | Some ts \<Rightarrow> expected_conflicts cm (name r) (map fst ts) (currentIteration e1))
             else []"
  have cs: "conflictLog ea = conflictLog e1 @ ?cs" "conflictLog eb = conflictLog e2 @ ?cs"
    using rule_step_conflictLog [OF a] rule_step_conflictLog [OF b]
    unfolding fired Cons.prems(4) by simp_all
  from rule_step_logs [OF a] rule_step_logs [OF b] Cons.prems(4) have
    ci': "currentIteration ea = currentIteration eb" by simp
  from Cons.prems(2) a have a2: "sweep ev h rs (sa, ca, ma, ea) = (s1, c1, m1, e1')" by simp
  from Cons.prems(3) b eq have b2: "sweep ev h' rs (sa, ca, ma, eb) = (s2, c2, m2, e2')" by simp
  from Cons.IH [OF frs a2 b2 ci'] obtain ds where
    "conflictLog e1' = conflictLog ea @ ds" "conflictLog e2' = conflictLog eb @ ds"
    by blast
  with cs show ?case by simp
qed

lemma iteration_body_summary:
  assumes hf: "host_free ev" and fr: "list_all host_free_rule rs"
    and 1: "iteration_body ev h rs (st, it, ch, e) = (s', i', c', e')"
    and 2: "sweep_summary ev rs st (it + 1) = (sr, cr, ns, cs)"
  shows "s' = sr \<and> c' = cr \<and> i' = it + 1 \<and> getRulesApplied e' = getRulesApplied e @ ns
         \<and> conflictLog e' = conflictLog e @ cs"
proof -
  let ?a = "log h (e\<lparr>currentIteration := it + 1\<rparr>) (''--- Iteration '' @ show_int (it + 1) @ '' ---'') ''info''"
  let ?b = "fresh_engine\<lparr>currentIteration := it + 1\<rparr>"
  obtain sa ca ma ea where a: "sweep ev h rs (st, False, Map.empty, ?a) = (sa, ca, ma, ea)"
    by (cases "sweep ev h rs (st, False, Map.empty, ?a)") auto
  obtain sb cb mb eb where b: "sweep ev (still_host [] 0) rs (st, False, Map.empty, ?b) = (sb, cb, mb, eb)"
    by (cases "sweep ev (still_host [] 0) rs (st, False, Map.empty, ?b)") auto
  from 2 b have r: "sr = sb" "cr = cb" "ns = getRulesApplied eb" "cs = conflictLog eb"
    by (simp_all add: sweep_summary_def)
  from sweep_host_free [OF hf fr a b] obtain ms where
    eq: "sa = sb" "ca = cb" and
    ms: "getRulesApplied ea = getRulesApplied ?a @ ms" "getRulesApplied eb = getRulesApplied ?b @ ms"
    by blast
  have ci: "currentIteration ?a = currentIteration ?b" by simp
  from sweep_conflicts_host_free [OF hf fr a b ci] obtain ds where
    ds: "conflictLog ea = conflictLog ?a @ ds" "conflictLog eb = conflictLog ?b @ ds"
    by blast
  from 1 a have r1: "s' = sa" "c' = ca" "i' = it + 1" "getRulesApplied e' = getRulesApplied ea"
    "conflictLog e' = conflictLog ea"
    by (auto simp: iteration_body_def getRulesApplied_log starts_with_def split: if_splits)
  from r eq ms ds r1 show ?thesis
    by (simp add: getRulesApplied_log starts_with_def)
qed

lemma fixpoint_loop_summary_step:
  assumes hf: "host_free ev" and fr: "list_all host_free_rule rs"
    and go: "ch \<and> it < M"
    and 2: "sweep_summary ev rs st (it + 1) = (sr, cr, ns, cs)"
  shows "\<exists>e'. fixpoint_loop ev h rs M (st, it, ch, e) = fixpoint_loop ev h rs M (sr, it + 1, cr, e')
           \<and> getRulesApplied e' = getRulesApplied e @ ns \<and> conflictLog e' = conflictLog e @ cs"
proof -
  obtain s' i' c' e' where 1: "iteration_body ev h rs (st, it, ch, e) = (s', i', c', e')"
    by (cases "iteration_body ev h rs (st, it, ch, e)") auto
  from iteration_body_summary [OF hf fr 1 2] fixpoint_loop_step [OF go, of ev h rs st e] 1
  show ?thesis by auto
qed

lemma apply_prologue_logs [simp]:
  "getRulesApplied (apply_prologue h cfg) = []" "conflictLog (apply_prologue h cfg) = []"
  by (simp_all add: apply_prologue_def getRulesApplied_log starts_with_def)

lemma axis_apply_result:
  assumes "fixpoint_loop ev h (sortedRules_of cfg) (maxIterations_of cfg) (st, 0, True, apply_prologue h cfg)
             = (s', i', c', e')"
  shows "res_output (axis_apply ev h st cfg) = s'" "iterations (axis_apply ev h st cfg) = i'"
    "rulesApplied (axis_apply ev h st cfg) = getRulesApplied e'"
    "conflicts (axis_apply ev h st cfg) = conflictLog e'"
  using assms
  by (simp_all add: axis_apply_def Let_def deep_copy_def apply_prologue_def getRulesApplied_log starts_with_def)

lemma host_free_sorted: "list_all host_free_rule (rules cfg) \<Longrightarrow> list_all host_free_rule (sortedRules_of cfg)"
  by (simp add: list_all_iff)

lemma apply_host_free:
  assumes hf: "host_free ev" and fr: "list_all host_free_rule (rules cfg)"
  shows "res_output (axis_apply ev h st cfg) = res_output (axis_apply ev h' st cfg) \<and>
         iterations (axis_apply ev h st cfg) = iterations (axis_apply ev h' st cfg) \<and>
         rulesApplied (axis_apply ev h st cfg) = rulesApplied (axis_apply ev h' st cfg)"
proof -
  let ?rs = "sortedRules_of cfg" and ?M = "maxIterations_of cfg"
  obtain s1 i1 c1 e1 where 1: "fixpoint_loop ev h ?rs ?M (st, 0, True, apply_prologue h cfg) = (s1, i1, c1, e1)"
    by (cases "fixpoint_loop ev h ?rs ?M (st, 0, True, apply_prologue h cfg)") auto
  obtain s2 i2 c2 e2 where 2: "fixpoint_loop ev h' ?rs ?M (st, 0, True, apply_prologue h' cfg) = (s2, i2, c2, e2)"
    by (cases "fixpoint_loop ev h' ?rs ?M (st, 0, True, apply_prologue h' cfg)") auto
  from fixpoint_loop_host_free [OF hf host_free_sorted [OF fr] 1 2]
  have "s1 = s2" "i1 = i2" "getRulesApplied e1 = getRulesApplied e2" by auto
  with axis_apply_result [OF 1] axis_apply_result [OF 2] show ?thesis by simp
qed

subsection \<open>When the context is built\<close>

lemma shadows_own: "map_of obj ''hasOwnProperty'' \<noteq> None \<Longrightarrow> shadows obj"
  by (induction obj) (auto split: if_splits)







subsection \<open>The loop through its summaries\<close>

lemma summary_loop_step:
  "ch \<and> it < M \<Longrightarrow>
     summary_loop ev rs M (st, it, ch, ns, cs) = summary_loop ev rs M (summary_step ev rs (st, it, ch, ns, cs))"
  by (simp add: summary_loop.simps)

lemma summary_loop_stop:
  "\<not> (ch \<and> it < M) \<Longrightarrow> summary_loop ev rs M (st, it, ch, ns, cs) = (st, it, ch, ns, cs)"
  by (auto simp: summary_loop.simps)

lemma fixpoint_loop_summary:
  assumes hf: "host_free ev" and fr: "list_all host_free_rule rs"
  shows "fixpoint_loop ev h rs M (st, it, ch, e) = (s', i', c', e') \<Longrightarrow>
         summary_loop ev rs M (st, it, ch, getRulesApplied e, conflictLog e)
           = (s', i', c', getRulesApplied e', conflictLog e')"
proof (induction "nat (M - it)" arbitrary: st it ch e)
  case 0
  then show ?case by (simp add: fixpoint_loop_stop summary_loop_stop)
next
  case (Suc n)
  show ?case
  proof (cases "ch \<and> it < M")
    case False
    with Suc.prems show ?thesis by (simp add: fixpoint_loop_stop summary_loop_stop)
  next
    case True
    obtain sr cr ns cs where 2: "sweep_summary ev rs st (it + 1) = (sr, cr, ns, cs)"
      by (cases "sweep_summary ev rs st (it + 1)") auto
    from fixpoint_loop_summary_step [OF hf fr True 2, of h e] obtain e1 where
      1: "fixpoint_loop ev h rs M (st, it, ch, e) = fixpoint_loop ev h rs M (sr, it + 1, cr, e1)"
      and g: "getRulesApplied e1 = getRulesApplied e @ ns" "conflictLog e1 = conflictLog e @ cs"
      by blast
    from Suc.prems 1 have 3: "fixpoint_loop ev h rs M (sr, it + 1, cr, e1) = (s', i', c', e')" by simp
    from Suc.hyps(2) True have n: "n = nat (M - (it + 1))" by simp
    have "summary_loop ev rs M (st, it, ch, getRulesApplied e, conflictLog e)
            = summary_loop ev rs M (sr, it + 1, cr, getRulesApplied e1, conflictLog e1)"
      using summary_loop_step [OF True, of ev rs st "getRulesApplied e" "conflictLog e"] 2 g
      by (simp add: summary_step_def)
    with Suc.hyps(1) [OF n 3] show ?thesis by simp
  qed
qed

lemma axis_apply_summary:
  assumes hf: "host_free ev" and fr: "list_all host_free_rule (rules cfg)"
    and s: "summary_loop ev (sortedRules_of cfg) (maxIterations_of cfg) (st, 0, True, [], []) = (s', i', c', ns, cs)"
  shows "res_output (axis_apply ev h st cfg) = s' \<and> iterations (axis_apply ev h st cfg) = i' \<and>
         rulesApplied (axis_apply ev h st cfg) = ns \<and> conflicts (axis_apply ev h st cfg) = cs"
proof -
  let ?rs = "sortedRules_of cfg" and ?M = "maxIterations_of cfg"
  obtain s1 i1 c1 e1 where 1: "fixpoint_loop ev h ?rs ?M (st, 0, True, apply_prologue h cfg) = (s1, i1, c1, e1)"
    by (cases "fixpoint_loop ev h ?rs ?M (st, 0, True, apply_prologue h cfg)") auto
  from fixpoint_loop_summary [OF hf host_free_sorted [OF fr] 1] s
  have "s1 = s'" "i1 = i'" "getRulesApplied e1 = ns" "conflictLog e1 = cs" by simp_all
  with axis_apply_result [OF 1] show ?thesis by simp
qed

lemma js_eval_host_free: "host_free js_eval"
  by (simp add: host_free_def js_eval_def)

lemma double_host_free: "list_all host_free_rule (rules double_config)"
  by code_simp

lemma double_summary:
  "summary_loop js_eval (sortedRules_of double_config) (maxIterations_of double_config)
     ([(''a'', Prim (JNum 1))], 0, True, [], [])
   = ([(''a'', Prim (JNum 16))], 5, False, [''double'', ''double'', ''double'', ''double''], [])"
  by code_simp

lemma conflict_host_free: "list_all host_free_rule (rules conflict_config)"
  by code_simp

lemma conflict_summary:
  "summary_loop js_eval (sortedRules_of conflict_config) (maxIterations_of conflict_config)
     ([], 0, True, [], [])
   = ([(''status'', Prim (JStr ''B''))], 10, True,
      [''r1'', ''r2'', ''r1'', ''r2'', ''r1'', ''r2'', ''r1'', ''r2'', ''r1'', ''r2'',
       ''r1'', ''r2'', ''r1'', ''r2'', ''r1'', ''r2'', ''r1'', ''r2'', ''r1'', ''r2''],
      map (\<lambda>i. \<lparr>field = ''status'', previousRule = ''r1'', currentRule = ''r2'',
                   resolution = ''priority_override'', iteration = i\<rparr>) [1, 2, 3, 4, 5, 6, 7, 8, 9, 10])"
  by code_simp

lemma stamp_run_monday:
  "(let r = axis_apply js_eval (still_host ''2026-01-05T09:00:00.000Z'' 0) [] stamp_config
    in (res_output r, iterations r))
   = ([(''t'', Prim (JStr ''2026-01-05T09:00:00.000Z''))], 2)"
  by code_simp


lemma stamp_rerun_tuesday:
  "(let r = axis_apply js_eval (still_host ''2026-01-06T09:00:00.000Z'' 0)
              [(''t'', Prim (JStr ''2026-01-05T09:00:00.000Z''))] stamp_config
    in (res_output r, iterations r))
   = ([(''t'', Prim (JStr ''2026-01-06T09:00:00.000Z''))], 2)"
  by code_simp

lemma double_plain: "list_all plain_rule (rules double_config)"
  by code_simp

subsection \<open>A converged run\<close>

lemma sweep_summary_cases:
  obtains s c m e where
    "sweep ev (still_host [] 0) rs (st, False, Map.empty, fresh_engine\<lparr>currentIteration := k\<rparr>) = (s, c, m, e)"
    "sweep_summary ev rs st k = (s, c, getRulesApplied e, conflictLog e)"
proof -
  obtain s c m e where
    a: "sweep ev (still_host [] 0) rs (st, False, Map.empty, fresh_engine\<lparr>currentIteration := k\<rparr>) = (s, c, m, e)"
    by (cases "sweep ev (still_host [] 0) rs (st, False, Map.empty, fresh_engine\<lparr>currentIteration := k\<rparr>)") auto
  then have "sweep_summary ev rs st k = (s, c, getRulesApplied e, conflictLog e)"
    by (simp add: sweep_summary_def)
  with a that show ?thesis by blast
qed

lemma sweep_summary_any_number:
  assumes hf: "host_free ev" and fr: "list_all host_free_rule rs"
  shows "fst (sweep_summary ev rs st k) = fst (sweep_summary ev rs st k')
         \<and> fst (snd (sweep_summary ev rs st k)) = fst (snd (sweep_summary ev rs st k'))"
proof -
  obtain s c m e where a:
    "sweep ev (still_host [] 0) rs (st, False, Map.empty, fresh_engine\<lparr>currentIteration := k\<rparr>) = (s, c, m, e)"
    "sweep_summary ev rs st k = (s, c, getRulesApplied e, conflictLog e)"
    by (rule sweep_summary_cases)
  obtain s' c' m' e' where b:
    "sweep ev (still_host [] 0) rs (st, False, Map.empty, fresh_engine\<lparr>currentIteration := k'\<rparr>) = (s', c', m', e')"
    "sweep_summary ev rs st k' = (s', c', getRulesApplied e', conflictLog e')"
    by (rule sweep_summary_cases)
  from sweep_host_free [OF hf fr a(1) b(1)] a(2) b(2) show ?thesis by simp
qed

lemma sweep_summary_unchanged:
  "sweep_summary ev rs st k = (s, False, ns, cs) \<Longrightarrow> s = st"
proof -
  assume a: "sweep_summary ev rs st k = (s, False, ns, cs)"
  obtain s' c m e where b:
    "sweep ev (still_host [] 0) rs (st, False, Map.empty, fresh_engine\<lparr>currentIteration := k\<rparr>) = (s', c, m, e)"
    "sweep_summary ev rs st k = (s', c, getRulesApplied e, conflictLog e)"
    by (rule sweep_summary_cases)
  from a b(2) have "s' = s" "c = False" by simp_all
  with sweep_logs [OF b(1)] show ?thesis by simp
qed

lemma summary_loop_converged:
  "summary_loop ev rs M (st, it, ch, ns, cs) = (s', i', c', ns', cs') \<Longrightarrow> ch \<and> it < M \<Longrightarrow> i' < M \<Longrightarrow>
     \<exists>k. fst (sweep_summary ev rs s' k) = s' \<and> \<not> fst (snd (sweep_summary ev rs s' k))"
proof (induction "nat (M - it)" arbitrary: st it ch ns cs)
  case 0
  then show ?case by simp
next
  case (Suc n)
  obtain sr cr ms ds where sw: "sweep_summary ev rs st (it + 1) = (sr, cr, ms, ds)"
    by (cases "sweep_summary ev rs st (it + 1)") auto
  have step: "summary_loop ev rs M (st, it, ch, ns, cs) = summary_loop ev rs M (sr, it + 1, cr, ns @ ms, cs @ ds)"
    using summary_loop_step [OF Suc.prems(2), of ev rs st ns cs] sw by (simp add: summary_step_def)
  show ?case
  proof (cases "cr \<and> it + 1 < M")
    case True
    from Suc.hyps(2) True have n: "n = nat (M - (it + 1))" by simp
    from Suc.prems(1) step have "summary_loop ev rs M (sr, it + 1, cr, ns @ ms, cs @ ds) = (s', i', c', ns', cs')"
      by simp
    from Suc.hyps(1) [OF n this True Suc.prems(3)] show ?thesis .
  next
    case False
    with Suc.prems(1) step have r: "s' = sr" "i' = it + 1" "c' = cr"
      by (simp_all add: summary_loop_stop)
    with Suc.prems(3) False have "\<not> cr" by simp
    with sw have sw': "sweep_summary ev rs st (it + 1) = (sr, False, ms, ds)" by simp
    from sweep_summary_unchanged [OF sw'] have "sr = st" .
    with sw' r show ?thesis by (intro exI [of _ "it + 1"]) simp
  qed
qed

lemma double_converges: "iterations (axis_apply js_eval h [(''a'', Prim (JNum 1))] double_config) = 5"
  using axis_apply_summary [OF js_eval_host_free double_host_free double_summary, of h] by simp

lemma double_output: "res_output (axis_apply js_eval h [(''a'', Prim (JNum 1))] double_config) = [(''a'', Prim (JNum 16))]"
  using axis_apply_summary [OF js_eval_host_free double_host_free double_summary, of h] by simp

lemma double_max: "maxIterations_of double_config = 10"
  by (simp add: maxIterations_of_def double_config_def)

section \<open>Claims\<close>

subsection \<open>C1: the doubling scenario\<close>

text \<open>
  C1 as stated fails: the run takes five sweeps, not four. Four sweeps double
  \<open>a\<close>; the fifth finds the condition false, changes nothing and ends the loop, and
  the counter counts it.
\<close>

theorem sample_double_counterexample:
  "iterations (axis_apply js_eval (still_host ''T'' 0) [(''a'', Prim (JNum 1))] double_config) \<noteq> 4"
  using axis_apply_summary [OF js_eval_host_free double_host_free double_summary, of "still_host ''T'' 0"]
  by simp

text \<open>
  C1, amended. For the input \<^verbatim>\<open>{"a": 1}\<close>, the rule \<^verbatim>\<open>double\<close> (priority 1, if
  \<^verbatim>\<open>a < 10\<close>, then \<^verbatim>\<open>a: {{ a * 2 }}\<close>) and \<^verbatim>\<open>max_iterations\<close> 10, under any clock, \<^verbatim>\<open>apply\<close>
  returns the output \<^verbatim>\<open>{a: 16}\<close>, \<^verbatim>\<open>iterations\<close> 5 and \<^verbatim>\<open>rulesApplied\<close> four times
  \<^verbatim>\<open>double\<close>.
\<close>

theorem sample_double:
  "res_output (axis_apply js_eval h [(''a'', Prim (JNum 1))] double_config) = [(''a'', Prim (JNum 16))] \<and>
   iterations (axis_apply js_eval h [(''a'', Prim (JNum 1))] double_config) = 5 \<and>
   rulesApplied (axis_apply js_eval h [(''a'', Prim (JNum 1))] double_config)
     = [''double'', ''double'', ''double'', ''double'']"
  using axis_apply_summary [OF js_eval_host_free double_host_free double_summary, of h]
  by simp

subsection \<open>C2: two rules writing one path\<close>

text \<open>
  C2 as stated fails: the run does not converge in the second sweep and records
  more than one conflict. The change test compares the state before and after
  each rule, and in every sweep \<^verbatim>\<open>r1\<close> writes \<^verbatim>\<open>A\<close> over \<^verbatim>\<open>B\<close> and \<^verbatim>\<open>r2\<close> writes \<^verbatim>\<open>B\<close> over
  \<^verbatim>\<open>A\<close>.
\<close>

theorem sample_conflict_counterexample:
  "iterations (axis_apply js_eval (still_host ''T'' 0) [] conflict_config) \<noteq> 2 \<and>
   length (conflicts (axis_apply js_eval (still_host ''T'' 0) [] conflict_config)) \<noteq> 1"
  using axis_apply_summary [OF js_eval_host_free conflict_host_free conflict_summary, of "still_host ''T'' 0"]
  by simp

text \<open>
  C2, amended. For the input \<^verbatim>\<open>{}\<close> and the rules \<^verbatim>\<open>r1\<close> (priority 1, if \<^verbatim>\<open>true\<close>, then
  \<^verbatim>\<open>status: "A"\<close>) and \<^verbatim>\<open>r2\<close> (priority 2, if \<^verbatim>\<open>true\<close>, then \<^verbatim>\<open>status: "B"\<close>), under any
  clock, \<^verbatim>\<open>apply\<close> returns the output \<^verbatim>\<open>{status: "B"}\<close>; every sweep applies both
  rules and records one conflict on \<^verbatim>\<open>status\<close> with \<^verbatim>\<open>previousRule\<close> \<^verbatim>\<open>r1\<close> and
  \<^verbatim>\<open>currentRule\<close> \<^verbatim>\<open>r2\<close>; the run never converges and stops at the cap, the default
  10, with \<^verbatim>\<open>iterations\<close> 10 and ten conflict entries, one per sweep.
\<close>

theorem sample_conflict:
  "res_output (axis_apply js_eval h [] conflict_config) = [(''status'', Prim (JStr ''B''))] \<and>
   iterations (axis_apply js_eval h [] conflict_config) = 10 \<and>
   maxIterations_of conflict_config = 10 \<and>
   conflicts (axis_apply js_eval h [] conflict_config)
     = map (\<lambda>i. \<lparr>field = ''status'', previousRule = ''r1'', currentRule = ''r2'',
                   resolution = ''priority_override'', iteration = i\<rparr>) [1, 2, 3, 4, 5, 6, 7, 8, 9, 10] \<and>
   rulesApplied (axis_apply js_eval h [] conflict_config)
     = concat (replicate 10 [''r1'', ''r2''])"
  using axis_apply_summary [OF js_eval_host_free conflict_host_free conflict_summary, of h]
  by (simp add: maxIterations_of_def conflict_config_def numeral_eq_Suc)

subsection \<open>C4: determinism\<close>




subsection \<open>C6: absent and literal conditions\<close>

text \<open>
  The guard \<^verbatim>\<open>if (!condition) return true\<close> answers for every falsy condition, the
  literal \<^verbatim>\<open>false\<close> among them, before anything is evaluated.
\<close>

lemma evaluateCondition_false_literal:
  "evaluateCondition ev h (CBool False) ctx eng = (True, eng)"
  by (simp add: evaluateCondition_def)




subsection \<open>C7: evaluation failures are recovered where they happen\<close>



subsection \<open>C8: running again on a converged output\<close>

text \<open>
  C8 as stated fails: the builtin \<^verbatim>\<open>now()\<close> makes a converged output move again.
  The rule \<^verbatim>\<open>{name: "stamp", then: {t: "{{now()}}"}}\<close> on the input \<^verbatim>\<open>{}\<close> converges on
  Monday in two sweeps, below the cap of 10; run again on that output on Tuesday,
  it takes two sweeps, not one, and returns another output.
\<close>

theorem fixpoint_idempotent_counterexample:
  "iterations (axis_apply js_eval (still_host ''2026-01-05T09:00:00.000Z'' 0) [] stamp_config)
     < maxIterations_of stamp_config \<and>
   iterations (axis_apply js_eval (still_host ''2026-01-06T09:00:00.000Z'' 0)
      (res_output (axis_apply js_eval (still_host ''2026-01-05T09:00:00.000Z'' 0) [] stamp_config))
      stamp_config) \<noteq> 1 \<and>
   res_output (axis_apply js_eval (still_host ''2026-01-06T09:00:00.000Z'' 0)
      (res_output (axis_apply js_eval (still_host ''2026-01-05T09:00:00.000Z'' 0) [] stamp_config))
      stamp_config)
     \<noteq> res_output (axis_apply js_eval (still_host ''2026-01-05T09:00:00.000Z'' 0) [] stamp_config)"
  using stamp_run_monday stamp_rerun_tuesday
  by (simp add: Let_def maxIterations_of_def stamp_config_def)

text \<open>
  C8, amended. When no value of a \<^verbatim>\<open>then\<close> resolves to the builtins \<^verbatim>\<open>now()\<close>,
  \<^verbatim>\<open>timestamp()\<close> or \<^verbatim>\<open>uuid()\<close>, the expressions do not consult the clock or the random
  source, every path is plain, and a first call of \<^verbatim>\<open>apply\<close> ends with \<^verbatim>\<open>iterations\<close>
  below the cap, then a second call on the output of the first, with the same
  rules and under any clock, returns that output unchanged with \<^verbatim>\<open>iterations\<close> 1.
\<close>

theorem fixpoint_idempotent:
  assumes hf: "host_free ev" and fr: "list_all host_free_rule (rules cfg)"
    and pl: "list_all plain_rule (rules cfg)"
    and conv: "iterations (axis_apply ev h st cfg) < maxIterations_of cfg"
  shows "res_output (axis_apply ev h' (res_output (axis_apply ev h st cfg)) cfg)
           = res_output (axis_apply ev h st cfg) \<and>
         iterations (axis_apply ev h' (res_output (axis_apply ev h st cfg)) cfg) = 1"
proof -
  let ?rs = "sortedRules_of cfg" and ?M = "maxIterations_of cfg"
  have frs: "list_all host_free_rule ?rs" by (rule host_free_sorted [OF fr])
  obtain s' i' c' ns cs where
    s: "summary_loop ev ?rs ?M (st, 0, True, [], []) = (s', i', c', ns, cs)"
    by (cases "summary_loop ev ?rs ?M (st, 0, True, [], [])") auto
  from axis_apply_summary [OF hf fr s, of h] have
    o: "res_output (axis_apply ev h st cfg) = s'" and i: "iterations (axis_apply ev h st cfg) = i'"
    by simp_all
  from conv i have lt: "i' < ?M" by simp
  have pos: "0 < ?M"
  proof (rule ccontr)
    assume "\<not> 0 < ?M"
    with s have "i' = 0" by (simp add: summary_loop_stop)
    with lt \<open>\<not> 0 < ?M\<close> show False by simp
  qed
  from summary_loop_converged [OF s _ lt] pos obtain k where
    k: "fst (sweep_summary ev ?rs s' k) = s'" "\<not> fst (snd (sweep_summary ev ?rs s' k))"
    by auto
  obtain sr cr ms ds where sw: "sweep_summary ev ?rs s' (0 + 1) = (sr, cr, ms, ds)"
    by (cases "sweep_summary ev ?rs s' (0 + 1)") auto
  from sweep_summary_any_number [OF hf frs, of s' k "0 + 1"] k sw have r: "sr = s'" "\<not> cr" by simp_all
  have "summary_loop ev ?rs ?M (s', 0, True, [], []) = summary_loop ev ?rs ?M (s', 0 + 1, False, ms, ds)"
    using summary_loop_step [of True 0 ?M ev ?rs s' "[]" "[]"] pos sw r by (simp add: summary_step_def)
  then have "summary_loop ev ?rs ?M (s', 0, True, [], []) = (s', 1, False, ms, ds)"
    by (simp add: summary_loop_stop)
  from axis_apply_summary [OF hf fr this, of h'] o show ?thesis by simp
qed

theorem fixpoint_idempotent_witness:
  "host_free js_eval \<and> list_all host_free_rule (rules double_config) \<and>
   list_all plain_rule (rules double_config) \<and>
   iterations (axis_apply js_eval (still_host ''T'' 0) [(''a'', Prim (JNum 1))] double_config)
     < maxIterations_of double_config \<and>
   res_output (axis_apply js_eval (still_host ''T'' 0) [(''a'', Prim (JNum 1))] double_config)
     = [(''a'', Prim (JNum 16))] \<and>
   res_output (axis_apply js_eval (still_host ''U'' 1) [(''a'', Prim (JNum 16))] double_config)
     = [(''a'', Prim (JNum 16))] \<and>
   iterations (axis_apply js_eval (still_host ''U'' 1) [(''a'', Prim (JNum 16))] double_config) = 1"
proof -
  have conv: "iterations (axis_apply js_eval (still_host ''T'' 0) [(''a'', Prim (JNum 1))] double_config)
     < maxIterations_of double_config"
    by (simp add: double_converges double_max)
  from fixpoint_idempotent [OF js_eval_host_free double_host_free double_plain conv, of "still_host ''U'' 1"]
  show ?thesis
    using conv js_eval_host_free double_host_free double_plain by (simp add: double_output)
qed

subsection \<open>C10: utilities override state in the evaluation context\<close>



end
